theory Spec2Isabelle
  imports Main
begin

section \<open>The ABI document and the resolved schema\<close>

text \<open>
  The data of \<^verbatim>\<open>src/eosio_abi_to_graphql_ast.mjs\<close>. A JavaScript property that
  may be \<^verbatim>\<open>undefined\<close> is an \<open>option\<close>: the \<^verbatim>\<open>base\<close> of a struct, the
  \<^verbatim>\<open>fields\<close> of a struct (the copy that alias expansion makes of a type it did
  not find has none), and the \<^verbatim>\<open>types\<close> and \<^verbatim>\<open>variants\<close> lists of the
  document, which the code reads through \<^verbatim>\<open>?.\<close>. Names and types are strings, and
  the lists are arrays, as in the JSON of a document.
\<close>

record abi_field =
  field_name :: string
  field_type :: string

record struct =
  struct_name :: string
  struct_base :: "string option"
  struct_fields :: "abi_field list option"

record abi_variant =
  variant_name :: string
  variant_types :: "string list"

record abi_type =
  new_type_name :: string
  real_type :: string

record abi =
  abi_types :: "abi_type list option"
  abi_variants :: "abi_variant list option"
  abi_structs :: "struct list"

text \<open>The \<^verbatim>\<open>$info\<close> object of a resolved field, and the resolved field itself.\<close>

record info =
  object :: bool
  optional :: bool
  list :: bool
  binary_ex :: bool
  variant :: bool

record ast_field =
  ast_name :: string
  ast_type :: string
  ast_info :: info

text \<open>
  The object \<^verbatim>\<open>graphql_ast_structs\<close> that is built and returned. It starts as
  \<^verbatim>\<open>{}\<close>, an ordinary object whose prototype is \<^verbatim>\<open>Object.prototype\<close>, and it
  is changed by assignments \<^verbatim>\<open>graphql_ast_structs[name] = ast_fields\<close> only. Such an
  assignment makes \<^verbatim>\<open>name\<close> a key of the object, with one exception: the name
  \<^verbatim>\<open>__proto__\<close> is an accessor of \<^verbatim>\<open>Object.prototype\<close>, and assigning an array
  to it makes the array the prototype of the object and adds no key. So the object is its
  keys with their values, and the array it has as a prototype, if an assignment gave it one.
\<close>

record graphql_ast =
  ast_properties :: "string \<rightharpoonup> ast_field list"
  ast_prototype :: "ast_field list option"

definition empty_object :: graphql_ast where
  "empty_object = \<lparr>ast_properties = Map.empty, ast_prototype = None\<rparr>"

definition set_property :: "graphql_ast \<Rightarrow> string \<Rightarrow> ast_field list \<Rightarrow> graphql_ast" where
  "set_property obj key v =
     (if key = ''__proto__''
      then obj\<lparr>ast_prototype := Some v\<rparr>
      else obj\<lparr>ast_properties := (ast_properties obj)(key \<mapsto> v)\<rparr>)"

text \<open>
  The field list that reading \<^verbatim>\<open>obj[key]\<close> gives: the value of the key, and for
  \<^verbatim>\<open>__proto__\<close> the array that is the prototype. What else an object inherits is
  no field list (the methods and the \<^verbatim>\<open>length\<close> of an array, its elements, the
  methods of \<^verbatim>\<open>Object.prototype\<close>), and is \<open>None\<close> here.
\<close>

definition lookup :: "graphql_ast \<Rightarrow> string \<Rightarrow> ast_field list option" where
  "lookup obj key = (if key = ''__proto__'' then ast_prototype obj else ast_properties obj key)"

text \<open>
  The only exception the resolver can raise is the \<^verbatim>\<open>TypeError\<close> of reading a
  property of \<^verbatim>\<open>undefined\<close> or of spreading it. A result is
  \<open>None\<close> when the recursion never returns, \<open>Some (Inl e)\<close> when \<open>e\<close> is thrown and
  \<open>Some (Inr v)\<close> when \<open>v\<close> is returned.
\<close>

datatype js_error = TypeError

type_synonym 'a result = "(js_error + 'a) option"

section \<open>The type-string grammar\<close>

text \<open>
  \<^verbatim>\<open>field.type.match(/[$?]/gmu)\<close>, \<^verbatim>\<open>/\$/\<close> and \<^verbatim>\<open>/@/\<close> ask whether a
  character of a class occurs; \<^verbatim>\<open>/\[\]/\<close> asks for an opening bracket directly
  followed by a closing one; \<^verbatim>\<open>replace(/[[\]?$@]/gmu, "")\<close> deletes every
  occurrence of the five characters of its class. All of these characters are ASCII, so
  the patterns do on the bytes of a string what they do on its code points.
\<close>

definition match_chars :: "char set \<Rightarrow> string \<Rightarrow> bool" where
  "match_chars cls s = (\<exists>c \<in> set s. c \<in> cls)"

fun match_list :: "string \<Rightarrow> bool" where
  "match_list (a # b # s) = ((a = CHR ''['' \<and> b = CHR '']'') \<or> match_list (b # s))"
| "match_list s = False"

definition strip_markers :: "string \<Rightarrow> string" where
  "strip_markers s = filter (\<lambda>c. c \<notin> set ''[]?$@'') s"

text \<open>
  Modelled from the spec: the registry \<^verbatim>\<open>eosio_types\<close> is imported from the module
  \<^verbatim>\<open>eosio_types.mjs\<close>, which is not part of the sources at hand. It is a parameter:
  the table of its keys, the primitive type names, with their values, which are GraphQL
  types and so truthy. It is taken to be an ordinary object, as an object literal makes
  one. Reading \<^verbatim>\<open>eosio_types[type]\<close> then also finds what the object inherits from
  \<^verbatim>\<open>Object.prototype\<close>: under each of the names below a function, and under
  \<^verbatim>\<open>__proto__\<close> the prototype itself, all of them truthy.
\<close>

definition object_prototype_names :: "string set" where
  "object_prototype_names =
     {''constructor'', ''hasOwnProperty'', ''isPrototypeOf'', ''propertyIsEnumerable'',
      ''toLocaleString'', ''toString'', ''valueOf'', ''__proto__'',
      ''__defineGetter__'', ''__defineSetter__'', ''__lookupGetter__'', ''__lookupSetter__''}"

text \<open>
  The body of the inner loop of \<^verbatim>\<open>handleStructs\<close>: \<^verbatim>\<open>object\<close> is
  \<^verbatim>\<open>!eosio_types[type]\<close>, true when the lookup finds nothing.
\<close>

definition ast_field_of :: "(string \<rightharpoonup> 'c) \<Rightarrow> abi_field \<Rightarrow> ast_field" where
  "ast_field_of eosio_types field =
     (let type = strip_markers (field_type field)
      in \<lparr>ast_name = field_name field, ast_type = type,
          ast_info = \<lparr>object = (eosio_types type = None \<and> type \<notin> object_prototype_names),
                       optional = match_chars {CHR ''$'', CHR ''?''} (field_type field),
                       list = match_list (field_type field),
                       binary_ex = match_chars {CHR ''$''} (field_type field),
                       variant = match_chars {CHR ''@''} (field_type field)\<rparr>\<rparr>)"

section \<open>Base flattening\<close>

text \<open>A string used as a condition is true unless it is \<^verbatim>\<open>undefined\<close> or empty.\<close>

definition truthy :: "string option \<Rightarrow> bool" where
  "truthy b = (case b of None \<Rightarrow> False | Some s \<Rightarrow> s \<noteq> [])"

text \<open>
  Spreading \<^verbatim>\<open>...fields\<close> after the already evaluated prefix: a
  \<^verbatim>\<open>TypeError\<close> when \<^verbatim>\<open>fields\<close> is \<^verbatim>\<open>undefined\<close>.
\<close>

definition spread_fields :: "abi_field list \<Rightarrow> abi_field list option \<Rightarrow> js_error + abi_field list" where
  "spread_fields pre fs = (case fs of None \<Rightarrow> Inl TypeError | Some l \<Rightarrow> Inr (pre @ l))"

text \<open>
  \<^verbatim>\<open>handleBaseFields\<close>: \<^verbatim>\<open>find\<close> the first struct of that name, fail on
  \<^verbatim>\<open>undefined\<close> when destructuring it, recurse into its base when that is truthy,
  then append its own fields. The source has no bound on the recursion, so the function is
  partial: \<open>None\<close> is the recursion that never returns.
\<close>

partial_function (option) handleBaseFields :: "string \<Rightarrow> struct list \<Rightarrow> abi_field list result" where
  "handleBaseFields base structs =
     (case find (\<lambda>s. struct_name s = base) structs of
        None \<Rightarrow> Some (Inl TypeError)
      | Some base_struct \<Rightarrow>
          (if truthy (struct_base base_struct)
           then Option.bind (handleBaseFields (the (struct_base base_struct)) structs)
                  (\<lambda>r. case r of
                          Inl e \<Rightarrow> Some (Inl e)
                        | Inr nested \<Rightarrow> Some (spread_fields nested (struct_fields base_struct)))
           else Some (spread_fields [] (struct_fields base_struct))))"

section \<open>Resolving the structs\<close>

text \<open>
  The list \<^verbatim>\<open>fields_with_base_fields\<close> of one struct. Without a truthy base it is
  the struct's own \<^verbatim>\<open>fields\<close>, whose \<^verbatim>\<open>length\<close> is read next: a
  \<^verbatim>\<open>TypeError\<close> when they are \<^verbatim>\<open>undefined\<close>.
\<close>

definition fields_with_base_fields :: "struct list \<Rightarrow> struct \<Rightarrow> abi_field list result" where
  "fields_with_base_fields structs struct =
     (if truthy (struct_base struct)
      then Option.bind (handleBaseFields (the (struct_base struct)) structs)
             (\<lambda>r. case r of
                     Inl e \<Rightarrow> Some (Inl e)
                   | Inr base_fields \<Rightarrow> Some (spread_fields base_fields (struct_fields struct)))
      else (case struct_fields struct of
              None \<Rightarrow> Some (Inl TypeError)
            | Some fs \<Rightarrow> Some (Inr fs)))"

text \<open>
  The array \<^verbatim>\<open>ast_fields\<close> that the inner loop fills for one struct: one resolved
  field per entry of \<^verbatim>\<open>fields_with_base_fields\<close>, in the same order.
\<close>

definition ast_fields :: "(string \<rightharpoonup> 'c) \<Rightarrow> struct list \<Rightarrow> struct \<Rightarrow> ast_field list result" where
  "ast_fields eosio_types structs struct =
     (case fields_with_base_fields structs struct of
        None \<Rightarrow> None
      | Some (Inl e) \<Rightarrow> Some (Inl e)
      | Some (Inr fs) \<Rightarrow> Some (Inr (map (ast_field_of eosio_types) fs)))"

text \<open>
  The outer loop of \<^verbatim>\<open>handleStructs\<close> over the structs that are left, with the
  object \<^verbatim>\<open>graphql_ast_structs\<close> built so far.
\<close>

fun handleStructs_loop ::
  "(string \<rightharpoonup> 'c) \<Rightarrow> struct list \<Rightarrow> struct list \<Rightarrow> graphql_ast \<Rightarrow> graphql_ast result" where
  "handleStructs_loop eosio_types structs [] graphql_ast_structs = Some (Inr graphql_ast_structs)"
| "handleStructs_loop eosio_types structs (struct # rest) graphql_ast_structs =
     (case ast_fields eosio_types structs struct of
        None \<Rightarrow> None
      | Some (Inl e) \<Rightarrow> Some (Inl e)
      | Some (Inr fs) \<Rightarrow>
          handleStructs_loop eosio_types structs rest
            (set_property graphql_ast_structs (struct_name struct) fs))"

definition handleStructs :: "(string \<rightharpoonup> 'c) \<Rightarrow> struct list \<Rightarrow> graphql_ast result" where
  "handleStructs eosio_types structs = handleStructs_loop eosio_types structs structs empty_object"

section \<open>Variants, aliases and the entry point\<close>

text \<open>
  The two loops of \<^verbatim>\<open>eosio_abi_to_graphql_ast\<close> that \<^verbatim>\<open>push\<close> onto
  \<^verbatim>\<open>new_structs\<close>. The alias loop searches the list as it is when the alias is
  reached, so it sees the variant structs and the copies of earlier aliases; spreading the
  \<^verbatim>\<open>undefined\<close> of a failed \<^verbatim>\<open>find\<close> gives an object with a name only.
  \<open>variant_struct\<close> and \<open>alias_struct\<close> are the two object literals that are pushed.
\<close>

definition variant_struct :: "abi_variant \<Rightarrow> struct" where
  "variant_struct v =
     \<lparr>struct_name = variant_name v, struct_base = Some [],
      struct_fields =
        Some (map (\<lambda>item. \<lparr>field_name = item, field_type = item @ ''$@''\<rparr>) (variant_types v))\<rparr>"

fun push_variants :: "struct list \<Rightarrow> abi_variant list \<Rightarrow> struct list" where
  "push_variants new_structs [] = new_structs"
| "push_variants new_structs (v # variants) =
     push_variants (new_structs @ [variant_struct v]) variants"

definition alias_struct :: "struct list \<Rightarrow> abi_type \<Rightarrow> struct" where
  "alias_struct new_structs t =
     (case find (\<lambda>x. struct_name x = real_type t) new_structs of
        None \<Rightarrow> \<lparr>struct_name = new_type_name t, struct_base = None, struct_fields = None\<rparr>
      | Some x \<Rightarrow> x\<lparr>struct_name := new_type_name t\<rparr>)"

fun push_types :: "struct list \<Rightarrow> abi_type list \<Rightarrow> struct list" where
  "push_types new_structs [] = new_structs"
| "push_types new_structs (t # types) =
     push_types (new_structs @ [alias_struct new_structs t]) types"

text \<open>
  The list that \<^verbatim>\<open>new_structs\<close> holds when \<^verbatim>\<open>handleStructs\<close> is called.
  A missing or empty \<^verbatim>\<open>variants\<close> or \<^verbatim>\<open>types\<close> list skips its loop.
\<close>

definition new_structs :: "abi \<Rightarrow> struct list" where
  "new_structs abi =
     (let with_variants =
            (case abi_variants abi of
               None \<Rightarrow> abi_structs abi
             | Some variants \<Rightarrow> push_variants (abi_structs abi) variants)
      in case abi_types abi of
           None \<Rightarrow> with_variants
         | Some types \<Rightarrow> push_types with_variants types)"

text \<open>
  \<^verbatim>\<open>const new_structs = structs\<close> binds the caller's array, not a copy of it, so
  the pushes are made on the document itself. The function therefore returns the document
  as it is after the call together with the outcome; \<^verbatim>\<open>Object.freeze\<close> leaves
  the contents of the schema as they are.
\<close>

definition eosio_abi_to_graphql_ast ::
  "(string \<rightharpoonup> 'c) \<Rightarrow> abi \<Rightarrow> (abi \<times> (js_error + graphql_ast)) option" where
  "eosio_abi_to_graphql_ast eosio_types abi =
     map_option (\<lambda>outcome. (abi\<lparr>abi_structs := new_structs abi\<rparr>, outcome))
       (handleStructs eosio_types (new_structs abi))"

section \<open>Notions used to state the properties\<close>

text \<open>
  The names \<^verbatim>\<open>handleBaseFields\<close> is called with, one after the other, when it
  starts at \<open>base\<close>: \<open>base_call structs base n\<close> is the argument of the call at
  depth \<open>n\<close>, if the recursion gets that deep.
\<close>

fun base_call :: "struct list \<Rightarrow> string \<Rightarrow> nat \<Rightarrow> string option" where
  "base_call structs base 0 = Some base"
| "base_call structs base (Suc n) =
     (case find (\<lambda>s. struct_name s = base) structs of
        None \<Rightarrow> None
      | Some base_struct \<Rightarrow>
          if truthy (struct_base base_struct)
          then base_call structs (the (struct_base base_struct)) n
          else None)"

text \<open>
  A base chain that revisits a name: the call at some depth has the argument of an earlier
  call.
\<close>

definition revisits :: "struct list \<Rightarrow> string \<Rightarrow> bool" where
  "revisits structs base =
     (\<exists>i j x. i < j \<and> base_call structs base i = Some x \<and> base_call structs base j = Some x)"

text \<open>
  A base chain that is acyclic and fully declared: starting at \<open>base\<close>, every name is
  the name of an entry of the list that has its fields, and after finitely many steps the
  entry has no base.
\<close>

inductive declared_chain :: "struct list \<Rightarrow> string \<Rightarrow> bool" where
  root: "find (\<lambda>s. struct_name s = base) structs = Some base_struct \<Longrightarrow>
         \<not> truthy (struct_base base_struct) \<Longrightarrow>
         struct_fields base_struct \<noteq> None \<Longrightarrow>
         declared_chain structs base"
| step: "find (\<lambda>s. struct_name s = base) structs = Some base_struct \<Longrightarrow>
         truthy (struct_base base_struct) \<Longrightarrow>
         declared_chain structs (the (struct_base base_struct)) \<Longrightarrow>
         struct_fields base_struct \<noteq> None \<Longrightarrow>
         declared_chain structs base"

code_pred declared_chain .

text \<open>
  An entry that resolves on its own: it has its fields, and its base, if it has one, starts
  an acyclic and fully declared chain.
\<close>

definition resolvable :: "struct list \<Rightarrow> struct \<Rightarrow> bool" where
  "resolvable structs struct =
     (struct_fields struct \<noteq> None \<and>
      (\<not> truthy (struct_base struct) \<or> declared_chain structs (the (struct_base struct))))"

text \<open>
  The structs of the base chain of a struct, nearest first: its base, the base of its
  base, and so on up to a struct without a base, each one the first entry of the list that
  bears the name. The flattened declaration of a struct along such a path is the declared
  fields of the structs of the path, outermost ancestor first, followed by the struct's own
  declared fields.
\<close>

fun base_path :: "struct list \<Rightarrow> struct \<Rightarrow> struct list \<Rightarrow> bool" where
  "base_path structs struct [] = (\<not> truthy (struct_base struct))"
| "base_path structs struct (b # path) =
     (truthy (struct_base struct) \<and>
      find (\<lambda>s. struct_name s = the (struct_base struct)) structs = Some b \<and>
      base_path structs b path)"

definition flattened_declaration :: "struct \<Rightarrow> struct list \<Rightarrow> abi_field list" where
  "flattened_declaration struct path =
     concat (map (\<lambda>s. case struct_fields s of None \<Rightarrow> [] | Some fs \<Rightarrow> fs) (rev (struct # path)))"

text \<open>
  The names of the entries of the working list, in processing order: the declared structs,
  then the variants, then the aliases.
\<close>

definition declared_names :: "abi \<Rightarrow> string list" where
  "declared_names abi =
     map struct_name (abi_structs abi) @
     map variant_name (case abi_variants abi of None \<Rightarrow> [] | Some variants \<Rightarrow> variants) @
     map new_type_name (case abi_types abi of None \<Rightarrow> [] | Some types \<Rightarrow> types)"

text \<open>The last entry of a list that bears a name.\<close>

definition last_named :: "string \<Rightarrow> struct list \<Rightarrow> struct option" where
  "last_named n structs = find (\<lambda>s. struct_name s = n) (rev structs)"

text \<open>
  Modelled from the spec: the module \<^verbatim>\<open>eosio_types.mjs\<close> is not among the sources
  at hand. The three names are the primitive types of the spec's \<^verbatim>\<open>transfer\<close>
  scenario; the table stands for the registry in the concrete instances below, and every
  general theorem holds for any registry.
\<close>

definition sample_types :: "string \<rightharpoonup> unit" where
  "sample_types = [''name'' \<mapsto> (), ''asset'' \<mapsto> (), ''string'' \<mapsto> ()]"

section \<open>Example documents\<close>

text \<open>
  Small documents on which the properties below are instantiated. The first is the
  inheritance example of the spec: \<open>B\<close> without a base and \<open>C\<close> with base \<open>B\<close>.
\<close>

definition abi_flatten :: abi where
  "abi_flatten =
     \<lparr>abi_types = Some [], abi_variants = None,
      abi_structs =
        [\<lparr>struct_name = ''B'', struct_base = Some [],
          struct_fields = Some [\<lparr>field_name = ''a'', field_type = ''name''\<rparr>]\<rparr>,
         \<lparr>struct_name = ''C'', struct_base = Some ''B'',
          struct_fields = Some [\<lparr>field_name = ''b'', field_type = ''asset''\<rparr>]\<rparr>]\<rparr>"

text \<open>One struct and two variants; one variant only.\<close>

definition abi_variants_two :: abi where
  "abi_variants_two =
     \<lparr>abi_types = None,
      abi_variants =
        Some [\<lparr>variant_name = ''v1'', variant_types = [''name'', ''asset'']\<rparr>,
              \<lparr>variant_name = ''v2'', variant_types = [''S'']\<rparr>],
      abi_structs =
        [\<lparr>struct_name = ''S'', struct_base = Some [],
          struct_fields = Some [\<lparr>field_name = ''x'', field_type = ''name''\<rparr>]\<rparr>]\<rparr>"

definition abi_variant_one :: abi where
  "abi_variant_one =
     \<lparr>abi_types = Some [],
      abi_variants = Some [\<lparr>variant_name = ''v'', variant_types = [''name'']\<rparr>],
      abi_structs = []\<rparr>"

text \<open>A struct that is its own base; two structs that are each other's base.\<close>

definition abi_cycle :: abi where
  "abi_cycle =
     \<lparr>abi_types = Some [], abi_variants = None,
      abi_structs = [\<lparr>struct_name = ''A'', struct_base = Some ''A'', struct_fields = Some []\<rparr>]\<rparr>"

definition abi_cycle_two :: abi where
  "abi_cycle_two =
     \<lparr>abi_types = Some [], abi_variants = None,
      abi_structs =
        [\<lparr>struct_name = ''A'', struct_base = Some ''B'', struct_fields = Some []\<rparr>,
         \<lparr>struct_name = ''B'', struct_base = Some ''A'', struct_fields = Some []\<rparr>]\<rparr>"

text \<open>A field whose type is markers only.\<close>

definition abi_markers_only :: abi where
  "abi_markers_only =
     \<lparr>abi_types = Some [], abi_variants = None,
      abi_structs =
        [\<lparr>struct_name = ''s'', struct_base = Some [],
          struct_fields = Some [\<lparr>field_name = ''f'', field_type = ''$@''\<rparr>]\<rparr>]\<rparr>"

text \<open>Two fields of one name, one of them of a type that nothing declares.\<close>

definition abi_loose :: abi where
  "abi_loose =
     \<lparr>abi_types = Some [], abi_variants = None,
      abi_structs =
        [\<lparr>struct_name = ''s'', struct_base = Some [],
          struct_fields =
            Some [\<lparr>field_name = ''a'', field_type = ''ghost''\<rparr>,
                  \<lparr>field_name = ''a'', field_type = ''name''\<rparr>]\<rparr>]\<rparr>"

text \<open>A base that names a variant; a base that names nothing.\<close>

definition abi_variant_base :: abi where
  "abi_variant_base =
     \<lparr>abi_types = Some [],
      abi_variants = Some [\<lparr>variant_name = ''V'', variant_types = [''name'']\<rparr>],
      abi_structs =
        [\<lparr>struct_name = ''C'', struct_base = Some ''V'',
          struct_fields = Some [\<lparr>field_name = ''c'', field_type = ''name''\<rparr>]\<rparr>]\<rparr>"

definition abi_ghost_base :: abi where
  "abi_ghost_base =
     \<lparr>abi_types = Some [], abi_variants = None,
      abi_structs =
        [\<lparr>struct_name = ''C'', struct_base = Some ''ghost'',
          struct_fields = Some [\<lparr>field_name = ''c'', field_type = ''name''\<rparr>]\<rparr>]\<rparr>"

text \<open>Two aliases of one new name; an alias of a variant.\<close>

definition abi_alias_clash :: abi where
  "abi_alias_clash =
     \<lparr>abi_types =
        Some [\<lparr>new_type_name = ''X'', real_type = ''S1''\<rparr>,
              \<lparr>new_type_name = ''X'', real_type = ''S2''\<rparr>],
      abi_variants = None,
      abi_structs =
        [\<lparr>struct_name = ''S1'', struct_base = Some [],
          struct_fields = Some [\<lparr>field_name = ''a'', field_type = ''name''\<rparr>]\<rparr>,
         \<lparr>struct_name = ''S2'', struct_base = Some [],
          struct_fields = Some [\<lparr>field_name = ''b'', field_type = ''asset''\<rparr>]\<rparr>]\<rparr>"

definition abi_alias_variant :: abi where
  "abi_alias_variant =
     \<lparr>abi_types = Some [\<lparr>new_type_name = ''X'', real_type = ''V''\<rparr>],
      abi_variants = Some [\<lparr>variant_name = ''V'', variant_types = [''name'']\<rparr>],
      abi_structs =
        [\<lparr>struct_name = ''S'', struct_base = Some [],
          struct_fields = Some [\<lparr>field_name = ''a'', field_type = ''name''\<rparr>]\<rparr>]\<rparr>"

text \<open>An alias of a primitive under the name of a struct; two structs of one name.\<close>

definition abi_name_clash :: abi where
  "abi_name_clash =
     \<lparr>abi_types = Some [\<lparr>new_type_name = ''S'', real_type = ''name''\<rparr>],
      abi_variants = None,
      abi_structs =
        [\<lparr>struct_name = ''S'', struct_base = Some [],
          struct_fields = Some [\<lparr>field_name = ''a'', field_type = ''name''\<rparr>]\<rparr>]\<rparr>"

definition abi_twice :: abi where
  "abi_twice =
     \<lparr>abi_types = Some [], abi_variants = None,
      abi_structs =
        [\<lparr>struct_name = ''S'', struct_base = Some [],
          struct_fields = Some [\<lparr>field_name = ''a'', field_type = ''name''\<rparr>]\<rparr>,
         \<lparr>struct_name = ''S'', struct_base = Some [],
          struct_fields = Some [\<lparr>field_name = ''b'', field_type = ''asset''\<rparr>]\<rparr>]\<rparr>"

text \<open>A struct of the name \<^verbatim>\<open>__proto__\<close> beside an ordinary one.\<close>

definition abi_proto :: abi where
  "abi_proto =
     \<lparr>abi_types = Some [], abi_variants = None,
      abi_structs =
        [\<lparr>struct_name = ''S'', struct_base = Some [],
          struct_fields = Some [\<lparr>field_name = ''a'', field_type = ''name''\<rparr>]\<rparr>,
         \<lparr>struct_name = ''__proto__'', struct_base = Some [],
          struct_fields = Some [\<lparr>field_name = ''b'', field_type = ''asset''\<rparr>]\<rparr>]\<rparr>"

section \<open>The flags of a resolved field\<close>

text \<open>The pattern \<^verbatim>\<open>/\[\]/\<close> matches exactly the strings that contain \<^verbatim>\<open>[]\<close>.\<close>

lemma match_list_iff: "match_list s \<longleftrightarrow> (\<exists>u v. s = u @ ''[]'' @ v)"
proof (induction s rule: match_list.induct)
  case (1 a b s)
  show ?case
  proof
    assume "match_list (a # b # s)"
    then consider "a = CHR ''[''" "b = CHR '']''" | "match_list (b # s)" by auto
    then show "\<exists>u v. a # b # s = u @ ''[]'' @ v"
    proof cases
      case 1
      then have "a # b # s = [] @ ''[]'' @ s" by simp
      then show ?thesis by blast
    next
      case 2
      with "1.IH" obtain u v where "b # s = u @ ''[]'' @ v" by blast
      then have "a # b # s = (a # u) @ ''[]'' @ v" by simp
      then show ?thesis by blast
    qed
  next
    assume "\<exists>u v. a # b # s = u @ ''[]'' @ v"
    then obtain u v where uv: "a # b # s = u @ ''[]'' @ v" by blast
    show "match_list (a # b # s)"
    proof (cases u)
      case Nil
      with uv show ?thesis by simp
    next
      case (Cons x u')
      with uv have "b # s = u' @ ''[]'' @ v" by simp
      with "1.IH" have "match_list (b # s)" by blast
      then show ?thesis by simp
    qed
  qed
qed (simp_all add: Cons_eq_append_conv)

text \<open>
  Claim C1, as the code has it. The five attributes of a resolved field are computed from
  the raw type string alone: \<open>list\<close> holds iff the string contains \<^verbatim>\<open>[]\<close>,
  \<open>binary_ex\<close> iff it contains \<^verbatim>\<open>$\<close>, \<open>variant\<close> iff it contains
  \<^verbatim>\<open>@\<close>. But \<open>optional\<close> holds iff the string contains \<^verbatim>\<open>?\<close> or
  \<^verbatim>\<open>$\<close>: the class of its pattern is \<^verbatim>\<open>[$?]\<close>, so a binary extension is
  optional too. The residual name is the string without its characters
  \<^verbatim>\<open>[ ] ? $ @\<close>, a bracket being deleted also where it stands alone. And
  \<open>object\<close> holds iff the residual name is neither a key of the registry nor a name that
  the registry inherits from \<^verbatim>\<open>Object.prototype\<close>.
\<close>

theorem C1_field_flags:
  "ast_name (ast_field_of eosio_types field) = field_name field \<and>
   ast_type (ast_field_of eosio_types field) =
     filter (\<lambda>c. c \<notin> {CHR ''['', CHR '']'', CHR ''?'', CHR ''$'', CHR ''@''}) (field_type field) \<and>
   list (ast_info (ast_field_of eosio_types field)) = (\<exists>u v. field_type field = u @ ''[]'' @ v) \<and>
   optional (ast_info (ast_field_of eosio_types field)) =
     (CHR ''?'' \<in> set (field_type field) \<or> CHR ''$'' \<in> set (field_type field)) \<and>
   binary_ex (ast_info (ast_field_of eosio_types field)) = (CHR ''$'' \<in> set (field_type field)) \<and>
   variant (ast_info (ast_field_of eosio_types field)) = (CHR ''@'' \<in> set (field_type field)) \<and>
   object (ast_info (ast_field_of eosio_types field)) =
     (filter (\<lambda>c. c \<notin> {CHR ''['', CHR '']'', CHR ''?'', CHR ''$'', CHR ''@''}) (field_type field)
        \<notin> dom eosio_types \<union>
            {''constructor'', ''hasOwnProperty'', ''isPrototypeOf'', ''propertyIsEnumerable'',
             ''toLocaleString'', ''toString'', ''valueOf'', ''__proto__'',
             ''__defineGetter__'', ''__defineSetter__'', ''__lookupGetter__'',
             ''__lookupSetter__''})"
proof -
  have residual: "strip_markers (field_type field) =
      filter (\<lambda>c. c \<notin> {CHR ''['', CHR '']'', CHR ''?'', CHR ''$'', CHR ''@''}) (field_type field)"
    by (simp add: strip_markers_def)
  have "object (ast_info (ast_field_of eosio_types field)) =
      (strip_markers (field_type field) \<notin> dom eosio_types \<union> object_prototype_names)"
    by (auto simp add: ast_field_of_def Let_def domIff)
  then have "object (ast_info (ast_field_of eosio_types field)) =
      (filter (\<lambda>c. c \<notin> {CHR ''['', CHR '']'', CHR ''?'', CHR ''$'', CHR ''@''}) (field_type field)
         \<notin> dom eosio_types \<union>
             {''constructor'', ''hasOwnProperty'', ''isPrototypeOf'', ''propertyIsEnumerable'',
              ''toLocaleString'', ''toString'', ''valueOf'', ''__proto__'',
              ''__defineGetter__'', ''__defineSetter__'', ''__lookupGetter__'',
              ''__lookupSetter__''})"
    by (simp only: residual object_prototype_names_def)
  moreover have "ast_type (ast_field_of eosio_types field) =
      filter (\<lambda>c. c \<notin> {CHR ''['', CHR '']'', CHR ''?'', CHR ''$'', CHR ''@''}) (field_type field)"
    by (simp add: ast_field_of_def Let_def residual)
  moreover have "ast_name (ast_field_of eosio_types field) = field_name field"
    and "list (ast_info (ast_field_of eosio_types field)) = (\<exists>u v. field_type field = u @ ''[]'' @ v)"
    and "optional (ast_info (ast_field_of eosio_types field)) =
      (CHR ''?'' \<in> set (field_type field) \<or> CHR ''$'' \<in> set (field_type field))"
    and "binary_ex (ast_info (ast_field_of eosio_types field)) = (CHR ''$'' \<in> set (field_type field))"
    and "variant (ast_info (ast_field_of eosio_types field)) = (CHR ''@'' \<in> set (field_type field))"
    by (auto simp add: ast_field_of_def Let_def match_chars_def match_list_iff)
  ultimately show ?thesis by blast
qed

text \<open>
  Claim C1 as stated fails, three times. The type \<^verbatim>\<open>name$\<close> has no \<^verbatim>\<open>?\<close>,
  and its field is optional. The type \<^verbatim>\<open>name]\<close> holds none of the four markers, so
  it is its own residual name by the claim and no key of the registry, and its field is
  no object: the code deletes the bracket and finds \<^verbatim>\<open>name\<close>. The type
  \<^verbatim>\<open>toString\<close> holds no marker and is no key of the registry, and its field is no
  object: the lookup finds the inherited method.
\<close>

theorem C1_optional_counterexample:
  "optional (ast_info (ast_field_of sample_types \<lparr>field_name = ''f'', field_type = ''name$''\<rparr>)) \<and>
   CHR ''?'' \<notin> set ''name$'' \<and>
   \<not> object (ast_info (ast_field_of sample_types \<lparr>field_name = ''f'', field_type = ''name]''\<rparr>)) \<and>
   set ''name]'' \<inter> {CHR ''['', CHR ''?'', CHR ''$'', CHR ''@''} = {} \<and>
   sample_types ''name]'' = None \<and>
   \<not> object (ast_info (ast_field_of sample_types \<lparr>field_name = ''f'', field_type = ''toString''\<rparr>)) \<and>
   set ''toString'' \<inter> {CHR ''['', CHR '']'', CHR ''?'', CHR ''$'', CHR ''@''} = {} \<and>
   sample_types ''toString'' = None"
  by (simp add: ast_field_of_def Let_def match_chars_def strip_markers_def sample_types_def
      object_prototype_names_def)

section \<open>Properties of base flattening\<close>

text \<open>
  One unfolding of \<^verbatim>\<open>handleBaseFields\<close> for each way its first steps can go, then
  the two directions of: the recursion returns fields exactly on a chain that is acyclic and
  fully declared. A chain that comes back to a name never returns.
\<close>

lemma handleBaseFields_not_found:
  "find (\<lambda>s. struct_name s = base) structs = None \<Longrightarrow>
   handleBaseFields base structs = Some (Inl TypeError)"
  by (subst handleBaseFields.simps) simp

lemma handleBaseFields_root:
  "find (\<lambda>s. struct_name s = base) structs = Some base_struct \<Longrightarrow>
   \<not> truthy (struct_base base_struct) \<Longrightarrow>
   handleBaseFields base structs = Some (spread_fields [] (struct_fields base_struct))"
  by (subst handleBaseFields.simps) simp

lemma handleBaseFields_step:
  "find (\<lambda>s. struct_name s = base) structs = Some base_struct \<Longrightarrow>
   truthy (struct_base base_struct) \<Longrightarrow>
   handleBaseFields base structs =
     Option.bind (handleBaseFields (the (struct_base base_struct)) structs)
       (\<lambda>r. case r of
               Inl e \<Rightarrow> Some (Inl e)
             | Inr nested \<Rightarrow> Some (spread_fields nested (struct_fields base_struct)))"
  by (subst handleBaseFields.simps) simp

lemma declared_chain_returns:
  "declared_chain structs base \<Longrightarrow> \<exists>fs. handleBaseFields base structs = Some (Inr fs)"
proof (induction rule: declared_chain.induct)
  case (root base structs base_struct)
  then show ?case
    by (auto simp add: handleBaseFields_root spread_fields_def)
next
  case (step base structs base_struct)
  then show ?case
    by (auto simp add: handleBaseFields_step spread_fields_def)
qed

lemma bind_spread_Inr:
  "Option.bind x (\<lambda>r. case r of Inl e \<Rightarrow> Some (Inl e)
                        | Inr nested \<Rightarrow> Some (spread_fields nested fo)) = Some (Inr fs) \<longleftrightarrow>
   (\<exists>nested l. x = Some (Inr nested) \<and> fo = Some l \<and> fs = nested @ l)"
proof (cases x)
  case None
  then show ?thesis by simp
next
  case (Some r)
  show ?thesis
  proof (cases r)
    case (Inl e)
    with Some show ?thesis by simp
  next
    case (Inr nested)
    with Some show ?thesis by (cases fo) (auto simp add: spread_fields_def)
  qed
qed

lemma bind_spread_Some:
  "Option.bind x (\<lambda>r. case r of Inl e \<Rightarrow> Some (Inl e)
                        | Inr nested \<Rightarrow> Some (spread_fields nested fo)) = Some y \<Longrightarrow>
   \<exists>r. x = Some r"
  by (cases x) simp_all

lemma returns_declared_chain_aux:
  assumes "handleBaseFields base structs = Some r"
  shows "case r of Inl e \<Rightarrow> True | Inr fs \<Rightarrow> declared_chain structs base"
proof (rule handleBaseFields.raw_induct
    [where P = "\<lambda>base structs r. case r of Inl e \<Rightarrow> True | Inr fs \<Rightarrow> declared_chain structs base",
      OF _ assms])
  fix f :: "string \<Rightarrow> struct list \<Rightarrow> abi_field list result" and base structs r
  assume IH: "\<And>b s y. f b s = Some y \<Longrightarrow>
      (case y of Inl e \<Rightarrow> True | Inr fs \<Rightarrow> declared_chain s b)"
    and eq: "(case find (\<lambda>s. struct_name s = base) structs of
        None \<Rightarrow> Some (Inl TypeError)
      | Some base_struct \<Rightarrow>
          if truthy (struct_base base_struct)
          then Option.bind (f (the (struct_base base_struct)) structs)
                 (\<lambda>r. case r of
                         Inl e \<Rightarrow> Some (Inl e)
                       | Inr nested \<Rightarrow> Some (spread_fields nested (struct_fields base_struct)))
          else Some (spread_fields [] (struct_fields base_struct))) = Some r"
  show "case r of Inl e \<Rightarrow> True | Inr fs \<Rightarrow> declared_chain structs base"
  proof (cases r)
    case (Inl e)
    then show ?thesis by simp
  next
    case (Inr fs)
    show ?thesis
    proof (cases "find (\<lambda>s. struct_name s = base) structs")
      case None
      with eq Inr show ?thesis by simp
    next
      case (Some base_struct)
      show ?thesis
      proof (cases "truthy (struct_base base_struct)")
        case False
        with eq Some Inr have "struct_fields base_struct \<noteq> None"
          by (auto simp add: spread_fields_def split: option.splits)
        with Some False have "declared_chain structs base" by (rule declared_chain.root)
        with Inr show ?thesis by simp
      next
        case True
        with eq Some Inr obtain nested where
          n: "f (the (struct_base base_struct)) structs = Some (Inr nested)"
          and fs: "struct_fields base_struct \<noteq> None"
          by (auto simp add: bind_spread_Inr)
        from IH [OF n] have "declared_chain structs (the (struct_base base_struct))" by simp
        with Some True have "declared_chain structs base" using fs by (rule declared_chain.step)
        with Inr show ?thesis by simp
      qed
    qed
  qed
qed

lemma returns_declared_chain:
  "handleBaseFields base structs = Some (Inr fs) \<Longrightarrow> declared_chain structs base"
  using returns_declared_chain_aux [of base structs "Inr fs"] by simp

lemma returns_call_chain_ends:
  assumes "handleBaseFields base structs = Some r"
  shows "\<exists>n. base_call structs base (Suc n) = None"
proof (rule handleBaseFields.raw_induct
    [where P = "\<lambda>base structs r. \<exists>n. base_call structs base (Suc n) = None", OF _ assms])
  fix f :: "string \<Rightarrow> struct list \<Rightarrow> abi_field list result" and base structs r
  assume IH: "\<And>b s y. f b s = Some y \<Longrightarrow> \<exists>n. base_call s b (Suc n) = None"
    and eq: "(case find (\<lambda>s. struct_name s = base) structs of
        None \<Rightarrow> Some (Inl TypeError)
      | Some base_struct \<Rightarrow>
          if truthy (struct_base base_struct)
          then Option.bind (f (the (struct_base base_struct)) structs)
                 (\<lambda>r. case r of
                         Inl e \<Rightarrow> Some (Inl e)
                       | Inr nested \<Rightarrow> Some (spread_fields nested (struct_fields base_struct)))
          else Some (spread_fields [] (struct_fields base_struct))) = Some r"
  show "\<exists>n. base_call structs base (Suc n) = None"
  proof (cases "find (\<lambda>s. struct_name s = base) structs")
    case None
    then have "base_call structs base (Suc 0) = None" by simp
    then show ?thesis by blast
  next
    case (Some base_struct)
    show ?thesis
    proof (cases "truthy (struct_base base_struct)")
      case False
      with Some have "base_call structs base (Suc 0) = None" by simp
      then show ?thesis by blast
    next
      case True
      with eq Some obtain r' where
        "f (the (struct_base base_struct)) structs = Some r'"
        by (auto dest: bind_spread_Some)
      from IH [OF this] obtain n where
        "base_call structs (the (struct_base base_struct)) (Suc n) = None" by blast
      with Some True have "base_call structs base (Suc (Suc n)) = None" by simp
      then show ?thesis by blast
    qed
  qed
qed

lemma base_call_add:
  "base_call structs base (m + n) =
     (case base_call structs base m of None \<Rightarrow> None | Some c \<Rightarrow> base_call structs c n)"
proof (induction structs base m rule: base_call.induct)
  case (1 structs base)
  show ?case by simp
next
  case (2 structs base m)
  then show ?case by (simp split: option.splits)
qed

lemma base_call_None_mono:
  "base_call structs base m = None \<Longrightarrow> m \<le> k \<Longrightarrow> base_call structs base k = None"
proof -
  assume a: "base_call structs base m = None" and le: "m \<le> k"
  have "base_call structs base (m + (k - m)) = None"
    by (simp only: base_call_add a option.case)
  with le show ?thesis by simp
qed

lemma base_call_loop:
  assumes "base_call structs x d = Some x"
  shows "base_call structs x (k * d) = Some x"
proof (induction k)
  case 0
  show ?case by simp
next
  case (Suc k)
  have "base_call structs x (k * d + d) = Some x"
    by (simp only: base_call_add Suc option.case assms)
  then show ?case by (simp add: add.commute)
qed

lemma revisit_never_ends:
  assumes "i < j"
    and "base_call structs base i = Some x"
    and "base_call structs base j = Some x"
  shows "base_call structs base n \<noteq> None"
proof
  assume stop: "base_call structs base n = None"
  define d where "d = j - i"
  with assms(1) have j: "j = i + d" and d: "0 < d" by simp_all
  from assms(3) have "base_call structs x d = Some x"
    unfolding j by (simp add: base_call_add assms(2))
  then have "base_call structs x (n * d) = Some x" by (rule base_call_loop)
  then have far: "base_call structs base (i + n * d) = Some x"
    by (simp add: base_call_add assms(2))
  from d have "n \<le> i + n * d" by (cases d) simp_all
  with stop have "base_call structs base (i + n * d) = None" by (rule base_call_None_mono)
  with far show False by simp
qed

lemma revisit_diverges:
  assumes "i < j"
    and "base_call structs base i = Some x"
    and "base_call structs base j = Some x"
  shows "handleBaseFields base structs = None"
proof (cases "handleBaseFields base structs")
  case None
  then show ?thesis .
next
  case (Some r)
  then obtain n where "base_call structs base (Suc n) = None"
    using returns_call_chain_ends by blast
  with revisit_never_ends [OF assms] show ?thesis by blast
qed

section \<open>Properties of resolving one struct\<close>

text \<open>
  An entry resolves to fields exactly when it is \<open>resolvable\<close>, and its name plays no
  part in what it resolves to.
\<close>

lemma resolvable_returns:
  assumes "resolvable structs struct"
  shows "\<exists>fs. fields_with_base_fields structs struct = Some (Inr fs)"
proof (cases "truthy (struct_base struct)")
  case False
  with assms show ?thesis
    by (auto simp add: fields_with_base_fields_def resolvable_def)
next
  case True
  with assms have "declared_chain structs (the (struct_base struct))"
    by (simp add: resolvable_def)
  then obtain nested where "handleBaseFields (the (struct_base struct)) structs = Some (Inr nested)"
    using declared_chain_returns by blast
  moreover from assms obtain l where "struct_fields struct = Some l"
    by (auto simp add: resolvable_def)
  ultimately show ?thesis using True
    by (simp add: fields_with_base_fields_def spread_fields_def)
qed

lemma returns_resolvable:
  assumes "fields_with_base_fields structs struct = Some (Inr fs)"
  shows "resolvable structs struct"
proof (cases "truthy (struct_base struct)")
  case False
  with assms show ?thesis
    by (auto simp add: fields_with_base_fields_def resolvable_def split: option.splits)
next
  case True
  with assms obtain nested l where
    "handleBaseFields (the (struct_base struct)) structs = Some (Inr nested)"
    and "struct_fields struct = Some l"
    by (auto simp add: fields_with_base_fields_def bind_spread_Inr)
  then show ?thesis
    by (simp add: resolvable_def returns_declared_chain)
qed

lemma ast_fields_Inr_iff:
  "ast_fields eosio_types structs struct = Some (Inr afs) \<longleftrightarrow>
   (\<exists>fs. fields_with_base_fields structs struct = Some (Inr fs) \<and>
         afs = map (ast_field_of eosio_types) fs)"
  by (auto simp add: ast_fields_def split: option.splits sum.splits)

lemma ast_fields_resolvable:
  "(\<exists>afs. ast_fields eosio_types structs struct = Some (Inr afs)) \<longleftrightarrow> resolvable structs struct"
  using resolvable_returns [of structs struct] returns_resolvable [of structs struct]
  by (auto simp add: ast_fields_Inr_iff)

lemma ast_fields_cong_name:
  "struct_base s = struct_base s' \<Longrightarrow> struct_fields s = struct_fields s' \<Longrightarrow>
   ast_fields eosio_types structs s = ast_fields eosio_types structs s'"
  by (simp add: ast_fields_def fields_with_base_fields_def)

section \<open>The last entry of a name\<close>

lemma find_append_case:
  "find P (xs @ ys) = (case find P xs of None \<Rightarrow> find P ys | Some x \<Rightarrow> Some x)"
  by (induction xs) simp_all

lemma find_Some_set: "find P xs = Some x \<Longrightarrow> x \<in> set xs \<and> P x"
  by (induction xs) (auto split: if_splits)

lemma last_named_Nil: "last_named n [] = None"
  by (simp add: last_named_def)

lemma last_named_Cons:
  "last_named n (x # xs) =
     (case last_named n xs of
        None \<Rightarrow> if struct_name x = n then Some x else None
      | Some s \<Rightarrow> Some s)"
  by (simp add: last_named_def find_append_case split: option.splits)

lemma last_named_append:
  "last_named n (xs @ ys) =
     (case last_named n ys of None \<Rightarrow> last_named n xs | Some s \<Rightarrow> Some s)"
  by (simp add: last_named_def find_append_case split: option.splits)

lemma last_named_Some:
  "last_named n xs = Some s \<Longrightarrow> s \<in> set xs \<and> struct_name s = n"
  by (auto simp add: last_named_def dest: find_Some_set)

lemma last_named_None_iff:
  "last_named n xs = None \<longleftrightarrow> n \<notin> struct_name ` set xs"
  by (auto simp add: last_named_def find_None_iff)

lemma last_named_index:
  assumes "j < length xs"
    and "\<And>k. j < k \<Longrightarrow> k < length xs \<Longrightarrow> struct_name (xs ! k) \<noteq> struct_name (xs ! j)"
  shows "last_named (struct_name (xs ! j)) xs = Some (xs ! j)"
proof -
  from assms(1) have xs: "xs = take j xs @ (xs ! j) # drop (Suc j) xs"
    by (simp add: id_take_nth_drop)
  have "struct_name (xs ! j) \<notin> struct_name ` set (drop (Suc j) xs)"
  proof
    assume "struct_name (xs ! j) \<in> struct_name ` set (drop (Suc j) xs)"
    then obtain i where i: "i < length (drop (Suc j) xs)"
      and eq: "struct_name (drop (Suc j) xs ! i) = struct_name (xs ! j)"
      by (auto simp add: in_set_conv_nth)
    from i have "Suc j + i < length xs" by simp
    moreover from i have "drop (Suc j) xs ! i = xs ! (Suc j + i)" by simp
    ultimately show False using assms(2) [of "Suc j + i"] eq by simp
  qed
  then have "last_named (struct_name (xs ! j)) (drop (Suc j) xs) = None"
    by (simp add: last_named_None_iff)
  then have "last_named (struct_name (xs ! j)) (take j xs @ (xs ! j) # drop (Suc j) xs) = Some (xs ! j)"
    by (simp add: last_named_append last_named_Cons)
  with xs show ?thesis by simp
qed

lemma count_one_unique:
  "count_list (map f xs) n = 1 \<Longrightarrow> s \<in> set xs \<Longrightarrow> s' \<in> set xs \<Longrightarrow>
   f s = n \<Longrightarrow> f s' = n \<Longrightarrow> s = s'"
proof (induction xs)
  case Nil
  then show ?case by simp
next
  case (Cons x xs)
  show ?case
  proof (cases "f x = n")
    case True
    with Cons.prems(1) have "count_list (map f xs) n = 0" by simp
    then have "n \<notin> set (map f xs)" by (simp add: count_list_0_iff)
    then have "\<And>y. y \<in> set xs \<Longrightarrow> f y \<noteq> n" by auto
    with Cons.prems(2-5) have "s = x" and "s' = x" by auto
    then show ?thesis by simp
  next
    case False
    with Cons show ?thesis by auto
  qed
qed

lemma last_named_unique:
  assumes "count_list (map struct_name xs) n = 1" and "s \<in> set xs" and "struct_name s = n"
  shows "last_named n xs = Some s"
proof -
  from assms(2,3) have "last_named n xs \<noteq> None"
    by (auto simp add: last_named_None_iff)
  then obtain s' where s': "last_named n xs = Some s'" by blast
  then have "s' \<in> set xs" and "struct_name s' = n"
    by (simp_all add: last_named_Some)
  with assms have "s = s'" by (blast dest: count_one_unique)
  with s' show ?thesis by simp
qed

section \<open>Properties of the loop over the structs\<close>

text \<open>
  The loop returns a schema exactly when every entry resolves; the schema then maps a
  name to what the last entry of that name resolves to. Otherwise the first entry that does
  not resolve decides between the exception and the recursion that never returns.
\<close>

lemma lookup_set_property:
  "lookup (set_property obj key v) n = (if n = key then Some v else lookup obj n)"
  by (simp add: lookup_def set_property_def)

lemma lookup_empty_object: "lookup empty_object n = None"
  by (simp add: lookup_def empty_object_def)

lemma loop_returns:
  "(\<And>s. s \<in> set xs \<Longrightarrow> \<exists>afs. ast_fields eosio_types structs s = Some (Inr afs)) \<Longrightarrow>
   \<exists>m. handleStructs_loop eosio_types structs xs acc = Some (Inr m)"
proof (induction xs arbitrary: acc)
  case Nil
  show ?case by simp
next
  case (Cons x xs)
  from Cons.prems [of x] obtain afs where "ast_fields eosio_types structs x = Some (Inr afs)"
    by auto
  moreover have "\<exists>m. handleStructs_loop eosio_types structs xs
      (set_property acc (struct_name x) afs) = Some (Inr m)"
    by (rule Cons.IH) (simp add: Cons.prems)
  ultimately show ?case by simp
qed

lemma loop_Inr_Cons:
  "handleStructs_loop eosio_types structs (x # xs) acc = Some (Inr m) \<longleftrightarrow>
   (\<exists>afs. ast_fields eosio_types structs x = Some (Inr afs) \<and>
          handleStructs_loop eosio_types structs xs (set_property acc (struct_name x) afs) = Some (Inr m))"
  by (auto split: option.splits sum.splits)

lemma loop_Inr_all:
  "handleStructs_loop eosio_types structs xs acc = Some (Inr m) \<Longrightarrow> s \<in> set xs \<Longrightarrow>
   \<exists>afs. ast_fields eosio_types structs s = Some (Inr afs)"
proof (induction xs arbitrary: acc)
  case Nil
  then show ?case by simp
next
  case (Cons x xs)
  from Cons.prems(1) obtain afs where x: "ast_fields eosio_types structs x = Some (Inr afs)"
    and rest: "handleStructs_loop eosio_types structs xs (set_property acc (struct_name x) afs) = Some (Inr m)"
    unfolding loop_Inr_Cons by blast
  show ?case
  proof (cases "s = x")
    case True
    with x show ?thesis by blast
  next
    case False
    with Cons.prems(2) have "s \<in> set xs" by simp
    with rest show ?thesis by (rule Cons.IH)
  qed
qed

lemma loop_lookup:
  "handleStructs_loop eosio_types structs xs acc = Some (Inr m) \<Longrightarrow>
   (case last_named n xs of
      None \<Rightarrow> lookup m n = lookup acc n
    | Some s \<Rightarrow>
        ast_fields eosio_types structs s = Some (Inr (the (lookup m n))) \<and> lookup m n \<noteq> None)"
proof (induction xs arbitrary: acc)
  case Nil
  then show ?case by (simp add: last_named_Nil)
next
  case (Cons x xs)
  from Cons.prems(1) obtain afs where x: "ast_fields eosio_types structs x = Some (Inr afs)"
    and rest: "handleStructs_loop eosio_types structs xs (set_property acc (struct_name x) afs) = Some (Inr m)"
    unfolding loop_Inr_Cons by blast
  from Cons.IH [OF rest] x show ?case
    by (auto simp add: last_named_Cons lookup_set_property split: option.splits)
qed

lemma loop_lookup_Some:
  assumes "handleStructs_loop eosio_types structs xs acc = Some (Inr m)"
    and "last_named n xs = Some s"
  shows "\<exists>afs. ast_fields eosio_types structs s = Some (Inr afs) \<and> lookup m n = Some afs"
  using loop_lookup [OF assms(1), of n] assms(2) by auto

lemma loop_lookup_None:
  assumes "handleStructs_loop eosio_types structs xs acc = Some (Inr m)"
    and "last_named n xs = None"
  shows "lookup m n = lookup acc n"
  using loop_lookup [OF assms(1), of n] assms(2) by simp

lemma loop_first_failure:
  assumes "\<And>s. s \<in> set pre \<Longrightarrow> \<exists>afs. ast_fields eosio_types structs s = Some (Inr afs)"
    and "ast_fields eosio_types structs x = Some (Inl e)"
  shows "handleStructs_loop eosio_types structs (pre @ x # post) acc = Some (Inl e)"
  using assms(1)
proof (induction pre arbitrary: acc)
  case Nil
  from assms(2) show ?case by simp
next
  case (Cons p pre)
  from Cons.prems [of p] obtain afs where "ast_fields eosio_types structs p = Some (Inr afs)"
    by auto
  moreover have "handleStructs_loop eosio_types structs (pre @ x # post)
      (set_property acc (struct_name p) afs) = Some (Inl e)"
    by (rule Cons.IH) (simp add: Cons.prems)
  ultimately show ?case by simp
qed

lemma loop_first_divergence:
  assumes "\<And>s. s \<in> set pre \<Longrightarrow> \<exists>afs. ast_fields eosio_types structs s = Some (Inr afs)"
    and "ast_fields eosio_types structs x = None"
  shows "handleStructs_loop eosio_types structs (pre @ x # post) acc = None"
  using assms(1)
proof (induction pre arbitrary: acc)
  case Nil
  from assms(2) show ?case by simp
next
  case (Cons p pre)
  from Cons.prems [of p] obtain afs where "ast_fields eosio_types structs p = Some (Inr afs)"
    by auto
  moreover have "handleStructs_loop eosio_types structs (pre @ x # post)
      (set_property acc (struct_name p) afs) = None"
    by (rule Cons.IH) (simp add: Cons.prems)
  ultimately show ?case by simp
qed

section \<open>Chains that are acyclic and fully declared\<close>

text \<open>
  The struct names are finitely many, so a chain of calls that revisits no name comes to
  an end. Hence \<open>declared_chain\<close> says what its name says: no name is revisited, and
  every name that is called is the name of an entry that has its fields.
\<close>

lemma revisits_diverges:
  "revisits structs base \<Longrightarrow> handleBaseFields base structs = None"
  unfolding revisits_def using revisit_diverges by blast

lemma ends_no_revisit:
  assumes "base_call structs base k = None"
  shows "\<not> revisits structs base"
  using assms revisit_never_ends unfolding revisits_def by blast

lemma base_call_Suc_found:
  "base_call structs base (Suc k) \<noteq> None \<Longrightarrow>
   \<exists>c s. base_call structs base k = Some c \<and> find (\<lambda>s. struct_name s = c) structs = Some s"
proof (induction k arbitrary: base)
  case 0
  then obtain s where "find (\<lambda>s. struct_name s = base) structs = Some s"
    by (cases "find (\<lambda>s. struct_name s = base) structs") simp_all
  then show ?case by simp
next
  case (Suc k)
  from Suc.prems obtain s where s: "find (\<lambda>s. struct_name s = base) structs = Some s"
    by (cases "find (\<lambda>s. struct_name s = base) structs") simp_all
  with Suc.prems have t: "truthy (struct_base s)"
    by (cases "truthy (struct_base s)") simp_all
  with Suc.prems s have "base_call structs (the (struct_base s)) (Suc k) \<noteq> None"
    by simp
  then obtain c s' where "base_call structs (the (struct_base s)) k = Some c"
    and "find (\<lambda>s. struct_name s = c) structs = Some s'"
    using Suc.IH by blast
  with s t have "base_call structs base (Suc k) = Some c \<and>
      find (\<lambda>s. struct_name s = c) structs = Some s'"
    by simp
  then show ?case by blast
qed

lemma no_revisit_ends:
  assumes "\<not> revisits structs base"
  shows "\<exists>k. base_call structs base (Suc k) = None"
proof (rule ccontr)
  assume "\<nexists>k. base_call structs base (Suc k) = None"
  then have defined: "base_call structs base (Suc k) \<noteq> None" for k
    by simp
  define f where "f k = the (base_call structs base k)" for k
  have f: "base_call structs base k = Some (f k)" for k
  proof -
    from base_call_Suc_found [OF defined [of k]] obtain c where
      "base_call structs base k = Some c" by blast
    then show ?thesis by (simp add: f_def)
  qed
  have names: "f k \<in> struct_name ` set structs" for k
  proof -
    from base_call_Suc_found [OF defined [of k]] obtain c s where
      "base_call structs base k = Some c" and "find (\<lambda>s. struct_name s = c) structs = Some s"
      by blast
    then have eq: "f k = struct_name s" and "s \<in> set structs"
      by (auto simp add: f_def dest: find_Some_set)
    from this(2) have "struct_name s \<in> struct_name ` set structs"
      by (rule imageI)
    then show ?thesis by (simp only: eq)
  qed
  have "card (f ` {0..length structs}) \<le> card (struct_name ` set structs)"
    by (rule card_mono) (auto simp add: names)
  also have "\<dots> \<le> card (set structs)"
    by (rule card_image_le) simp
  also have "\<dots> \<le> length structs"
    by (rule card_length)
  finally have "card (f ` {0..length structs}) < card {0..length structs}"
    by simp
  then have "\<not> inj_on f {0..length structs}"
    by (rule pigeonhole)
  then obtain i j where "i \<noteq> j" and same: "f i = f j"
    by (auto simp add: inj_on_def)
  then consider "i < j" | "j < i" by (cases i j rule: linorder_cases) auto
  then have "revisits structs base"
  proof cases
    case 1
    with f [of i] f [of j] same show ?thesis
      unfolding revisits_def by auto
  next
    case 2
    with f [of i] f [of j] same show ?thesis
      unfolding revisits_def by auto
  qed
  with assms show False by simp
qed

lemma declared_chain_declared:
  "declared_chain structs base \<Longrightarrow> base_call structs base k = Some c \<Longrightarrow>
   \<exists>s. find (\<lambda>s. struct_name s = c) structs = Some s \<and> struct_fields s \<noteq> None"
proof (induction arbitrary: k rule: declared_chain.induct)
  case (root base structs base_struct)
  then show ?case by (cases k) auto
next
  case (step base structs base_struct)
  then show ?case by (cases k) auto
qed

lemma ends_declared_chain:
  "base_call structs base (Suc k) = None \<Longrightarrow>
   (\<And>m c. base_call structs base m = Some c \<Longrightarrow>
      \<exists>s. find (\<lambda>s. struct_name s = c) structs = Some s \<and> struct_fields s \<noteq> None) \<Longrightarrow>
   declared_chain structs base"
proof (induction k arbitrary: base)
  case 0
  from "0.prems"(2) [of 0 base] obtain s where
    s: "find (\<lambda>s. struct_name s = base) structs = Some s" and fs: "struct_fields s \<noteq> None"
    by auto
  with "0.prems"(1) have "\<not> truthy (struct_base s)"
    by (auto split: if_splits)
  with s show ?case using fs by (rule declared_chain.root)
next
  case (Suc k)
  from Suc.prems(2) [of 0 base] obtain s where
    s: "find (\<lambda>s. struct_name s = base) structs = Some s" and fs: "struct_fields s \<noteq> None"
    by auto
  show ?case
  proof (cases "truthy (struct_base s)")
    case False
    with s show ?thesis using fs by (rule declared_chain.root)
  next
    case True
    with Suc.prems(1) s have "base_call structs (the (struct_base s)) (Suc k) = None"
      by simp
    moreover have "\<exists>s'. find (\<lambda>s. struct_name s = c) structs = Some s' \<and> struct_fields s' \<noteq> None"
      if "base_call structs (the (struct_base s)) m = Some c" for m c
    proof -
      from that s True have "base_call structs base (Suc m) = Some c" by simp
      then show ?thesis by (rule Suc.prems(2))
    qed
    ultimately have "declared_chain structs (the (struct_base s))"
      by (rule Suc.IH)
    with s True show ?thesis using fs by (rule declared_chain.step)
  qed
qed

lemma declared_chain_iff:
  "declared_chain structs base \<longleftrightarrow>
   \<not> revisits structs base \<and>
   (\<forall>k c. base_call structs base k = Some c \<longrightarrow>
      (\<exists>s. find (\<lambda>s. struct_name s = c) structs = Some s \<and> struct_fields s \<noteq> None))"
proof
  assume chain: "declared_chain structs base"
  then obtain fs where "handleBaseFields base structs = Some (Inr fs)"
    using declared_chain_returns by blast
  then have "\<not> revisits structs base"
    using revisits_diverges by fastforce
  with chain show "\<not> revisits structs base \<and>
      (\<forall>k c. base_call structs base k = Some c \<longrightarrow>
         (\<exists>s. find (\<lambda>s. struct_name s = c) structs = Some s \<and> struct_fields s \<noteq> None))"
    using declared_chain_declared by blast
next
  assume a: "\<not> revisits structs base \<and>
      (\<forall>k c. base_call structs base k = Some c \<longrightarrow>
         (\<exists>s. find (\<lambda>s. struct_name s = c) structs = Some s \<and> struct_fields s \<noteq> None))"
  then obtain k where ends: "base_call structs base (Suc k) = None"
    using no_revisit_ends by blast
  from a have "\<exists>s. find (\<lambda>s. struct_name s = c) structs = Some s \<and> struct_fields s \<noteq> None"
    if "base_call structs base m = Some c" for m c
    using that by blast
  with ends show "declared_chain structs base"
    by (rule ends_declared_chain)
qed

section \<open>Properties of the working list\<close>

text \<open>
  The working list is the declared structs, then one struct per variant, then one copy per
  alias, each copy made from the list as it stands before the copy.
\<close>

lemma push_variants_eq: "push_variants structs variants = structs @ map variant_struct variants"
  by (induction variants arbitrary: structs) simp_all

lemma alias_struct_name: "struct_name (alias_struct structs t) = new_type_name t"
  by (simp add: alias_struct_def split: option.splits)

lemma push_types_extends:
  "\<exists>copies. push_types structs types = structs @ copies \<and> length copies = length types"
proof (induction types arbitrary: structs)
  case Nil
  show ?case by simp
next
  case (Cons t types)
  from Cons.IH [of "structs @ [alias_struct structs t]"] obtain copies where
    "push_types (structs @ [alias_struct structs t]) types =
       (structs @ [alias_struct structs t]) @ copies"
    and "length copies = length types" by blast
  then have "push_types structs (t # types) = structs @ (alias_struct structs t # copies)
      \<and> length (alias_struct structs t # copies) = length (t # types)"
    by simp
  then show ?case by blast
qed

lemma push_types_length: "length (push_types structs types) = length structs + length types"
  using push_types_extends [of structs types] by auto

lemma push_types_names:
  "map struct_name (push_types structs types) =
     map struct_name structs @ map new_type_name types"
  by (induction types arbitrary: structs) (simp_all add: alias_struct_name)

lemma push_types_nth_old:
  "k < length structs \<Longrightarrow> push_types structs types ! k = structs ! k"
  using push_types_extends [of structs types] by (auto simp add: nth_append)

lemma push_types_nth:
  "i < length types \<Longrightarrow>
   push_types structs types ! (length structs + i) =
     alias_struct (take (length structs + i) (push_types structs types)) (types ! i)"
proof (induction types arbitrary: structs i)
  case Nil
  then show ?case by simp
next
  case (Cons t types)
  let ?acc = "structs @ [alias_struct structs t]"
  show ?case
  proof (cases i)
    case 0
    obtain copies where c: "push_types ?acc types = ?acc @ copies"
      using push_types_extends by blast
    with 0 show ?thesis by (simp add: nth_append)
  next
    case (Suc i')
    with Cons.prems have "i' < length types" by simp
    from Cons.IH [OF this, of ?acc] Suc show ?thesis by simp
  qed
qed

lemma new_structs_eq:
  "new_structs abi =
     push_types
       (abi_structs abi @
        map variant_struct (case abi_variants abi of None \<Rightarrow> [] | Some variants \<Rightarrow> variants))
       (case abi_types abi of None \<Rightarrow> [] | Some types \<Rightarrow> types)"
  by (simp add: new_structs_def push_variants_eq split: option.splits)

lemma new_structs_names: "map struct_name (new_structs abi) = declared_names abi"
  by (simp add: new_structs_eq push_types_names declared_names_def variant_struct_def comp_def)

lemma new_structs_length:
  "length (new_structs abi) =
     length (abi_structs abi) +
     length (case abi_variants abi of None \<Rightarrow> [] | Some variants \<Rightarrow> variants) +
     length (case abi_types abi of None \<Rightarrow> [] | Some types \<Rightarrow> types)"
  by (simp add: new_structs_eq push_types_length)

lemma new_structs_nth_struct:
  "k < length (abi_structs abi) \<Longrightarrow> new_structs abi ! k = abi_structs abi ! k"
  by (simp add: new_structs_eq push_types_nth_old nth_append)

lemma new_structs_nth_variant:
  "abi_variants abi = Some variants \<Longrightarrow> i < length variants \<Longrightarrow>
   new_structs abi ! (length (abi_structs abi) + i) = variant_struct (variants ! i)"
  by (simp add: new_structs_eq push_types_nth_old nth_append)

lemma new_structs_nth_alias:
  assumes "abi_types abi = Some types" and "i < length types"
    and "n = length (abi_structs abi) +
             length (case abi_variants abi of None \<Rightarrow> [] | Some variants \<Rightarrow> variants)"
  shows "new_structs abi ! (n + i) = alias_struct (take (n + i) (new_structs abi)) (types ! i)"
  using push_types_nth [OF assms(2),
      of "abi_structs abi @
          map variant_struct (case abi_variants abi of None \<Rightarrow> [] | Some variants \<Rightarrow> variants)"]
    assms(1,3)
  by (simp add: new_structs_eq)

lemma eosio_Some_iff:
  "eosio_abi_to_graphql_ast eosio_types abi = Some (abi', outcome) \<longleftrightarrow>
   handleStructs eosio_types (new_structs abi) = Some outcome \<and>
   abi' = abi\<lparr>abi_structs := new_structs abi\<rparr>"
  by (auto simp add: eosio_abi_to_graphql_ast_def)

lemma eosio_None_iff:
  "eosio_abi_to_graphql_ast eosio_types abi = None \<longleftrightarrow>
   handleStructs eosio_types (new_structs abi) = None"
  by (simp add: eosio_abi_to_graphql_ast_def)

section \<open>Evaluating the resolver on a document\<close>

lemmas resolver_defs =
  eosio_abi_to_graphql_ast_def new_structs_def handleStructs_def ast_fields_def
  fields_with_base_fields_def handleBaseFields.simps spread_fields_def truthy_def
  variant_struct_def alias_struct_def set_property_def empty_object_def
  ast_field_of_def Let_def match_chars_def strip_markers_def sample_types_def
  object_prototype_names_def

section \<open>Variant synthesis\<close>

text \<open>
  Claim C8. For every declared variant, the working list holds, at the variant's place
  after the declared structs, a struct of the variant's name whose base is the empty
  string, which counts as no base, and whose fields are one per member type \<open>t\<close> in
  declared order, of name \<open>t\<close> and raw type \<open>t\<close> followed by \<^verbatim>\<open>$@\<close>.
\<close>

theorem C8_variant_struct:
  assumes "abi_variants abi = Some variants" and "i < length variants"
  shows "length (abi_structs abi) + i < length (new_structs abi) \<and>
         new_structs abi ! (length (abi_structs abi) + i) =
           \<lparr>struct_name = variant_name (variants ! i), struct_base = Some [],
            struct_fields =
              Some (map (\<lambda>t. \<lparr>field_name = t, field_type = t @ ''$@''\<rparr>)
                      (variant_types (variants ! i)))\<rparr> \<and>
         \<not> truthy (struct_base (new_structs abi ! (length (abi_structs abi) + i)))"
proof -
  from assms have "new_structs abi ! (length (abi_structs abi) + i) = variant_struct (variants ! i)"
    by (rule new_structs_nth_variant)
  moreover from assms have "length (abi_structs abi) + i < length (new_structs abi)"
    by (simp add: new_structs_length)
  ultimately show ?thesis
    by (simp add: variant_struct_def truthy_def)
qed

theorem C8_variant_struct_witness:
  "new_structs abi_variants_two ! 2 =
     \<lparr>struct_name = ''v2'', struct_base = Some [],
      struct_fields = Some [\<lparr>field_name = ''S'', field_type = ''S$@''\<rparr>]\<rparr> \<and>
   length (new_structs abi_variants_two) = 3"
proof -
  have v: "abi_variants abi_variants_two =
      Some [\<lparr>variant_name = ''v1'', variant_types = [''name'', ''asset'']\<rparr>,
            \<lparr>variant_name = ''v2'', variant_types = [''S'']\<rparr>]"
    by (simp add: abi_variants_two_def)
  have i: "1 < length [\<lparr>variant_name = ''v1'', variant_types = [''name'', ''asset'']\<rparr>,
                       \<lparr>variant_name = ''v2'', variant_types = [''S'']\<rparr>]"
    by simp
  have place: "length (abi_structs abi_variants_two) + 1 = 2"
    by (simp add: abi_variants_two_def)
  from C8_variant_struct [OF v i]
  have "new_structs abi_variants_two ! (length (abi_structs abi_variants_two) + 1) =
      \<lparr>struct_name = ''v2'', struct_base = Some [],
       struct_fields = Some [\<lparr>field_name = ''S'', field_type = ''S$@''\<rparr>]\<rparr>"
    by simp
  then have "new_structs abi_variants_two ! 2 =
      \<lparr>struct_name = ''v2'', struct_base = Some [],
       struct_fields = Some [\<lparr>field_name = ''S'', field_type = ''S$@''\<rparr>]\<rparr>"
    unfolding place .
  moreover have "length (new_structs abi_variants_two) = 3"
    by (simp add: new_structs_length abi_variants_two_def)
  ultimately show ?thesis by (rule conjI)
qed

section \<open>The document after the call\<close>

text \<open>
  Claim C3 on the document with one variant and no struct: after the call the document's
  list of structs holds the struct synthesized for the variant, so it is not the empty
  list that the caller supplied. The pushes go to the caller's array.
\<close>

theorem C3_structs_extended:
  "eosio_abi_to_graphql_ast sample_types abi_variant_one =
     Some (abi_variant_one
             \<lparr>abi_structs :=
                [\<lparr>struct_name = ''v'', struct_base = Some [],
                  struct_fields = Some [\<lparr>field_name = ''name'', field_type = ''name$@''\<rparr>]\<rparr>]\<rparr>,
           Inr \<lparr>ast_properties =
                  [''v'' \<mapsto>
                     [\<lparr>ast_name = ''name'', ast_type = ''name'',
                       ast_info = \<lparr>object = False, optional = True, list = False,
                                    binary_ex = True, variant = True\<rparr>\<rparr>]],
                ast_prototype = None\<rparr>) \<and>
   abi_structs abi_variant_one = []"
  by (simp add: abi_variant_one_def resolver_defs)

section \<open>Flattening of the base chain\<close>

lemma handleBaseFields_eq_fields:
  assumes "find (\<lambda>s. struct_name s = base) structs = Some base_struct"
  shows "handleBaseFields base structs = fields_with_base_fields structs base_struct"
proof (cases "truthy (struct_base base_struct)")
  case True
  with assms show ?thesis
    by (simp add: handleBaseFields_step fields_with_base_fields_def)
next
  case False
  with assms show ?thesis
    by (simp add: handleBaseFields_root fields_with_base_fields_def spread_fields_def
        split: option.splits)
qed

text \<open>
  Claim C7. A struct has a base whose chain is acyclic and fully declared, and
  \<open>base_struct\<close> is the struct that the base names. Then the struct resolves, and to the
  resolved fields of \<open>base_struct\<close>, which are resolved the same way and so begin with the
  outermost ancestor's, followed by the struct's own declared fields. In a schema that
  resolution returns, the same holds of the entries under the two names when the two
  structs are the last ones of their names.
\<close>

theorem C7_base_flattening:
  assumes "struct_base struct = Some base" and "base \<noteq> []"
    and "find (\<lambda>s. struct_name s = base) structs = Some base_struct"
    and "declared_chain structs base"
    and "struct_fields struct = Some own"
  shows "(\<exists>base_ast.
            ast_fields eosio_types structs base_struct = Some (Inr base_ast) \<and>
            ast_fields eosio_types structs struct =
              Some (Inr (base_ast @ map (ast_field_of eosio_types) own))) \<and>
         (\<forall>abi abi' schema.
            structs = new_structs abi \<and>
            eosio_abi_to_graphql_ast eosio_types abi = Some (abi', Inr schema) \<and>
            last_named (struct_name struct) structs = Some struct \<and>
            last_named base structs = Some base_struct \<longrightarrow>
            (\<exists>base_ast. lookup schema base = Some base_ast \<and>
               lookup schema (struct_name struct) =
                 Some (base_ast @ map (ast_field_of eosio_types) own)))"
proof -
  from assms(4) obtain nested where
    nested: "handleBaseFields base structs = Some (Inr nested)"
    using declared_chain_returns by blast
  with assms(3) have b: "fields_with_base_fields structs base_struct = Some (Inr nested)"
    by (simp add: handleBaseFields_eq_fields)
  from assms(1,2,5) nested have
    s: "fields_with_base_fields structs struct = Some (Inr (nested @ own))"
    by (simp add: fields_with_base_fields_def truthy_def spread_fields_def)
  from b have b_ast: "ast_fields eosio_types structs base_struct =
      Some (Inr (map (ast_field_of eosio_types) nested))"
    by (simp add: ast_fields_Inr_iff)
  from s have s_ast: "ast_fields eosio_types structs struct =
      Some (Inr (map (ast_field_of eosio_types) nested @ map (ast_field_of eosio_types) own))"
    by (simp add: ast_fields_Inr_iff)
  have "\<exists>base_ast. lookup schema base = Some base_ast \<and>
          lookup schema (struct_name struct) =
            Some (base_ast @ map (ast_field_of eosio_types) own)"
    if "structs = new_structs abi"
      and "eosio_abi_to_graphql_ast eosio_types abi = Some (abi', Inr schema)"
      and "last_named (struct_name struct) structs = Some struct"
      and "last_named base structs = Some base_struct"
    for abi abi' schema
  proof -
    from that(1,2) have loop: "handleStructs_loop eosio_types structs structs empty_object = Some (Inr schema)"
      by (simp add: eosio_Some_iff handleStructs_def)
    from loop_lookup_Some [OF loop that(3)] s_ast
    have "lookup schema (struct_name struct) =
        Some (map (ast_field_of eosio_types) nested @ map (ast_field_of eosio_types) own)"
      by auto
    moreover from loop_lookup_Some [OF loop that(4)] b_ast
    have "lookup schema base = Some (map (ast_field_of eosio_types) nested)"
      by auto
    ultimately show ?thesis by simp
  qed
  with b_ast s_ast show ?thesis by blast
qed

text \<open>
  The instance of the spec: \<open>B\<close> with no base and the field \<open>a\<close>, \<open>C\<close> with base
  \<open>B\<close> and the field \<open>b\<close>; \<open>C\<close> resolves to \<open>a\<close>, then \<open>b\<close>.
\<close>

theorem C7_base_flattening_witness:
  "ast_fields sample_types (abi_structs abi_flatten) (abi_structs abi_flatten ! 1) =
     Some (Inr [ast_field_of sample_types \<lparr>field_name = ''a'', field_type = ''name''\<rparr>,
                ast_field_of sample_types \<lparr>field_name = ''b'', field_type = ''asset''\<rparr>]) \<and>
   eosio_abi_to_graphql_ast sample_types abi_flatten =
     Some (abi_flatten,
       Inr \<lparr>ast_properties =
              [''B'' \<mapsto>
                 [\<lparr>ast_name = ''a'', ast_type = ''name'',
                   ast_info = \<lparr>object = False, optional = False, list = False,
                                binary_ex = False, variant = False\<rparr>\<rparr>],
               ''C'' \<mapsto>
                 [\<lparr>ast_name = ''a'', ast_type = ''name'',
                   ast_info = \<lparr>object = False, optional = False, list = False,
                                binary_ex = False, variant = False\<rparr>\<rparr>,
                  \<lparr>ast_name = ''b'', ast_type = ''asset'',
                   ast_info = \<lparr>object = False, optional = False, list = False,
                                binary_ex = False, variant = False\<rparr>\<rparr>]],
            ast_prototype = None\<rparr>)"
proof -
  let ?B = "\<lparr>struct_name = ''B'', struct_base = Some [],
             struct_fields = Some [\<lparr>field_name = ''a'', field_type = ''name''\<rparr>]\<rparr>"
  let ?C = "\<lparr>struct_name = ''C'', struct_base = Some ''B'',
             struct_fields = Some [\<lparr>field_name = ''b'', field_type = ''asset''\<rparr>]\<rparr>"
  have structs: "abi_structs abi_flatten = [?B, ?C]"
    by (simp add: abi_flatten_def)
  have found: "find (\<lambda>s. struct_name s = ''B'') [?B, ?C] = Some ?B"
    by simp
  have chain: "declared_chain [?B, ?C] ''B''"
    by (rule declared_chain.root [OF found]) (simp_all add: truthy_def)
  have base_fields: "ast_fields sample_types [?B, ?C] ?B =
      Some (Inr [ast_field_of sample_types \<lparr>field_name = ''a'', field_type = ''name''\<rparr>])"
    by (simp add: ast_fields_def fields_with_base_fields_def truthy_def)
  from C7_base_flattening [of ?C "''B''" "[?B, ?C]" ?B
      "[\<lparr>field_name = ''b'', field_type = ''asset''\<rparr>]" sample_types, OF _ _ found chain]
  have "ast_fields sample_types [?B, ?C] ?C =
      Some (Inr [ast_field_of sample_types \<lparr>field_name = ''a'', field_type = ''name''\<rparr>,
                 ast_field_of sample_types \<lparr>field_name = ''b'', field_type = ''asset''\<rparr>])"
    by (simp add: base_fields)
  then have "ast_fields sample_types [?B, ?C] ([?B, ?C] ! 1) =
      Some (Inr [ast_field_of sample_types \<lparr>field_name = ''a'', field_type = ''name''\<rparr>,
                 ast_field_of sample_types \<lparr>field_name = ''b'', field_type = ''asset''\<rparr>])"
    by simp
  moreover have "eosio_abi_to_graphql_ast sample_types abi_flatten =
     Some (abi_flatten,
       Inr \<lparr>ast_properties =
              [''B'' \<mapsto>
                 [\<lparr>ast_name = ''a'', ast_type = ''name'',
                   ast_info = \<lparr>object = False, optional = False, list = False,
                                binary_ex = False, variant = False\<rparr>\<rparr>],
               ''C'' \<mapsto>
                 [\<lparr>ast_name = ''a'', ast_type = ''name'',
                   ast_info = \<lparr>object = False, optional = False, list = False,
                                binary_ex = False, variant = False\<rparr>\<rparr>,
                  \<lparr>ast_name = ''b'', ast_type = ''asset'',
                   ast_info = \<lparr>object = False, optional = False, list = False,
                                binary_ex = False, variant = False\<rparr>\<rparr>]],
            ast_prototype = None\<rparr>)"
    by (simp add: abi_flatten_def resolver_defs)
  ultimately show ?thesis by (simp only: structs)
qed

section \<open>A type string of markers only\<close>

lemma strip_markers_only:
  "set s \<subseteq> set ''[]?$@'' \<Longrightarrow> strip_markers s = []"
  by (auto simp add: strip_markers_def filter_empty_conv)

lemma resolvable_fields_suffix:
  assumes "resolvable structs struct" and "struct_fields struct = Some fs"
  shows "\<exists>base_fields. fields_with_base_fields structs struct = Some (Inr (base_fields @ fs))"
proof (cases "truthy (struct_base struct)")
  case False
  with assms(2) have "fields_with_base_fields structs struct = Some (Inr ([] @ fs))"
    by (simp add: fields_with_base_fields_def)
  then show ?thesis by blast
next
  case True
  with assms(1) have "declared_chain structs (the (struct_base struct))"
    by (simp add: resolvable_def)
  then obtain nested where "handleBaseFields (the (struct_base struct)) structs = Some (Inr nested)"
    using declared_chain_returns by blast
  with True assms(2) have "fields_with_base_fields structs struct = Some (Inr (nested @ fs))"
    by (simp add: fields_with_base_fields_def spread_fields_def)
  then show ?thesis by blast
qed

text \<open>
  Claim C4, as the code has it. A field whose raw type string consists of markers only is
  resolved like any other: its base type is the empty string, and it is an object exactly
  when the empty string is no key of the registry. No error is signalled for it: every
  struct that declares it and resolves on its own, with or without a base, resolves to a
  field list that holds it.
\<close>

theorem C4_markers_only_field:
  assumes "set (field_type field) \<subseteq> set ''[]?$@''"
    and "struct_fields struct = Some fs" and "field \<in> set fs"
    and "resolvable structs struct"
  shows "ast_type (ast_field_of eosio_types field) = [] \<and>
         object (ast_info (ast_field_of eosio_types field)) = (eosio_types [] = None) \<and>
         (\<exists>afs. ast_fields eosio_types structs struct = Some (Inr afs) \<and>
                ast_field_of eosio_types field \<in> set afs)"
proof -
  from assms(1) have "strip_markers (field_type field) = []"
    by (rule strip_markers_only)
  then have "ast_type (ast_field_of eosio_types field) = []"
    and "object (ast_info (ast_field_of eosio_types field)) = (eosio_types [] = None)"
    by (simp_all add: ast_field_of_def Let_def object_prototype_names_def)
  moreover from assms(4,2) obtain base_fields where
    "fields_with_base_fields structs struct = Some (Inr (base_fields @ fs))"
    using resolvable_fields_suffix by blast
  then have "ast_fields eosio_types structs struct =
      Some (Inr (map (ast_field_of eosio_types) (base_fields @ fs)))"
    by (simp add: ast_fields_Inr_iff)
  moreover from assms(3) have
    "ast_field_of eosio_types field \<in> set (map (ast_field_of eosio_types) (base_fields @ fs))"
    by simp
  ultimately show ?thesis by blast
qed

theorem C4_markers_only_field_witness:
  "ast_field_of sample_types \<lparr>field_name = ''g'', field_type = ''[]?''\<rparr> =
     \<lparr>ast_name = ''g'', ast_type = [],
      ast_info = \<lparr>object = True, optional = True, list = True,
                   binary_ex = False, variant = False\<rparr>\<rparr> \<and>
   ast_fields sample_types (abi_structs abi_flatten)
     \<lparr>struct_name = ''t'', struct_base = Some ''B'',
      struct_fields = Some [\<lparr>field_name = ''g'', field_type = ''[]?''\<rparr>]\<rparr> =
     Some (Inr [\<lparr>ast_name = ''a'', ast_type = ''name'',
                 ast_info = \<lparr>object = False, optional = False, list = False,
                              binary_ex = False, variant = False\<rparr>\<rparr>,
                \<lparr>ast_name = ''g'', ast_type = [],
                 ast_info = \<lparr>object = True, optional = True, list = True,
                              binary_ex = False, variant = False\<rparr>\<rparr>])"
proof -
  let ?g = "\<lparr>field_name = ''g'', field_type = ''[]?''\<rparr>"
  let ?t = "\<lparr>struct_name = ''t'', struct_base = Some ''B'', struct_fields = Some [?g]\<rparr>"
  let ?B = "\<lparr>struct_name = ''B'', struct_base = Some [],
             struct_fields = Some [\<lparr>field_name = ''a'', field_type = ''name''\<rparr>]\<rparr>"
  have found: "find (\<lambda>s. struct_name s = ''B'') (abi_structs abi_flatten) = Some ?B"
    by (simp add: abi_flatten_def)
  have chain: "declared_chain (abi_structs abi_flatten) ''B''"
    by (rule declared_chain.root [OF found]) (simp_all add: truthy_def)
  have 1: "set (field_type ?g) \<subseteq> set ''[]?$@''" by simp
  have 2: "struct_fields ?t = Some [?g]" by simp
  have 3: "?g \<in> set [?g]" by simp
  from chain have 4: "resolvable (abi_structs abi_flatten) ?t"
    by (simp add: resolvable_def)
  from C4_markers_only_field [OF 1 2 3 4, of sample_types]
  have "ast_type (ast_field_of sample_types ?g) = []" by simp
  then show ?thesis
    by (simp add: abi_flatten_def resolver_defs)
qed

text \<open>
  Claim C4 as stated fails: the document whose struct \<open>s\<close> declares the field \<open>f\<close> of
  type \<^verbatim>\<open>$@\<close> resolves to a schema, in which \<open>f\<close> has the empty base type.
\<close>

theorem C4_empty_base_type_counterexample:
  "eosio_abi_to_graphql_ast sample_types abi_markers_only =
     Some (abi_markers_only,
       Inr \<lparr>ast_properties =
              [''s'' \<mapsto>
                 [\<lparr>ast_name = ''f'', ast_type = [],
                   ast_info = \<lparr>object = True, optional = True, list = False,
                                binary_ex = True, variant = True\<rparr>\<rparr>]],
            ast_prototype = None\<rparr>)"
  by (simp add: abi_markers_only_def resolver_defs)

section \<open>A base chain that comes back to a name\<close>

lemma revisit_ast_fields_None:
  assumes "truthy (struct_base struct)"
    and "revisits structs (the (struct_base struct))"
  shows "ast_fields eosio_types structs struct = None"
proof -
  from assms(2) have "handleBaseFields (the (struct_base struct)) structs = None"
    by (rule revisits_diverges)
  with assms(1) show ?thesis
    by (simp add: ast_fields_def fields_with_base_fields_def)
qed

lemma no_schema_unless_all_resolve:
  assumes "struct \<in> set (new_structs abi)"
    and "\<And>afs. ast_fields eosio_types (new_structs abi) struct \<noteq> Some (Inr afs)"
  shows "eosio_abi_to_graphql_ast eosio_types abi \<noteq> Some (abi', Inr schema)"
proof
  assume "eosio_abi_to_graphql_ast eosio_types abi = Some (abi', Inr schema)"
  then have "handleStructs_loop eosio_types (new_structs abi) (new_structs abi) empty_object =
      Some (Inr schema)"
    by (simp add: eosio_Some_iff handleStructs_def)
  from loop_Inr_all [OF this assms(1)] assms(2) show False by blast
qed

text \<open>
  Claim C2, as the code has it. There is no check for cycles. When the base chain of an
  entry of the working list revisits a name, \<^verbatim>\<open>handleBaseFields\<close> never returns on
  it, so resolution returns no schema; and it does not return at all when the entries
  before that one resolve. (An entry before it that does not resolve decides first.)
\<close>

theorem C2_cycle_never_returns:
  assumes "new_structs abi = pre @ struct # post"
    and "truthy (struct_base struct)"
    and "revisits (new_structs abi) (the (struct_base struct))"
  shows "handleBaseFields (the (struct_base struct)) (new_structs abi) = None \<and>
         (\<forall>abi' schema. eosio_abi_to_graphql_ast eosio_types abi \<noteq> Some (abi', Inr schema)) \<and>
         ((\<forall>p \<in> set pre. resolvable (new_structs abi) p) \<longrightarrow>
            eosio_abi_to_graphql_ast eosio_types abi = None)"
proof -
  from assms(3) have never: "handleBaseFields (the (struct_base struct)) (new_structs abi) = None"
    by (rule revisits_diverges)
  from assms(2,3) have none: "ast_fields eosio_types (new_structs abi) struct = None"
    by (rule revisit_ast_fields_None)
  from assms(1) have "struct \<in> set (new_structs abi)" by simp
  then have no_schema: "eosio_abi_to_graphql_ast eosio_types abi \<noteq> Some (abi', Inr schema)"
    for abi' schema
    by (rule no_schema_unless_all_resolve) (simp add: none)
  have "eosio_abi_to_graphql_ast eosio_types abi = None"
    if "\<forall>p \<in> set pre. resolvable (new_structs abi) p"
  proof -
    from that have "\<exists>afs. ast_fields eosio_types (new_structs abi) p = Some (Inr afs)"
      if "p \<in> set pre" for p
      using that by (simp add: ast_fields_resolvable)
    then have "handleStructs_loop eosio_types (new_structs abi) (pre @ struct # post) empty_object = None"
      using none by (rule loop_first_divergence)
    then show ?thesis
      by (simp add: eosio_None_iff handleStructs_def assms(1) [symmetric])
  qed
  with never no_schema show ?thesis by blast
qed

theorem C2_cycle_never_returns_witness:
  "eosio_abi_to_graphql_ast sample_types abi_cycle_two = None"
proof -
  let ?A = "\<lparr>struct_name = ''A'', struct_base = Some ''B'', struct_fields = Some []\<rparr>"
  let ?B = "\<lparr>struct_name = ''B'', struct_base = Some ''A'', struct_fields = Some []\<rparr>"
  have w: "new_structs abi_cycle_two = [] @ ?A # [?B]"
    by (simp add: abi_cycle_two_def new_structs_def)
  have t: "truthy (struct_base ?A)" by (simp add: truthy_def)
  have lt: "(0::nat) < 2" by simp
  have c0: "base_call (new_structs abi_cycle_two) (the (struct_base ?A)) 0 = Some ''B''"
    by simp
  have c2: "base_call (new_structs abi_cycle_two) (the (struct_base ?A)) 2 = Some ''B''"
    by (simp add: w numeral_2_eq_2 truthy_def)
  from lt c0 c2 have r: "revisits (new_structs abi_cycle_two) (the (struct_base ?A))"
    unfolding revisits_def by blast
  from C2_cycle_never_returns [OF w t r, of sample_types] show ?thesis by simp
qed

text \<open>
  Claim C2 as stated fails: on the struct that is its own base, resolution does not
  terminate with an error, it does not return.
\<close>

theorem C2_no_cycle_error_counterexample:
  "eosio_abi_to_graphql_ast sample_types abi_cycle = None"
proof -
  let ?A = "\<lparr>struct_name = ''A'', struct_base = Some ''A'', struct_fields = Some []\<rparr>"
  have w: "new_structs abi_cycle = [?A]"
    by (simp add: abi_cycle_def new_structs_def)
  have "ast_fields sample_types [?A] ?A = None"
  proof (rule revisit_ast_fields_None)
    show "truthy (struct_base ?A)" by (simp add: truthy_def)
    have "(0::nat) < 1" by simp
    moreover have "base_call [?A] (the (struct_base ?A)) 0 = Some ''A''" by simp
    moreover have "base_call [?A] (the (struct_base ?A)) 1 = Some ''A''" by (simp add: truthy_def)
    ultimately show "revisits [?A] (the (struct_base ?A))"
      unfolding revisits_def by blast
  qed
  then show ?thesis
    by (simp add: eosio_None_iff handleStructs_def w)
qed

section \<open>Entries that share a name\<close>

text \<open>
  Claim C10, as the code has it. Two entries of the working list share a name, \<open>j\<close> is
  the place of the last entry of that name, and every entry of the list resolves on its
  own. Then resolution returns a schema, and the schema maps the name to what the entry at
  \<open>j\<close> resolves to. The entries stand in processing order: the declared structs, the
  variants, the aliases.
\<close>

theorem C10_last_entry_wins:
  assumes "i < j" and "j < length (new_structs abi)"
    and "struct_name (new_structs abi ! i) = struct_name (new_structs abi ! j)"
    and "\<And>k. j < k \<Longrightarrow> k < length (new_structs abi) \<Longrightarrow>
           struct_name (new_structs abi ! k) \<noteq> struct_name (new_structs abi ! j)"
    and "\<And>s. s \<in> set (new_structs abi) \<Longrightarrow> resolvable (new_structs abi) s"
  shows "map struct_name (new_structs abi) = declared_names abi \<and>
         (\<exists>schema afs.
            eosio_abi_to_graphql_ast eosio_types abi =
              Some (abi\<lparr>abi_structs := new_structs abi\<rparr>, Inr schema) \<and>
            ast_fields eosio_types (new_structs abi) (new_structs abi ! j) = Some (Inr afs) \<and>
            lookup schema (struct_name (new_structs abi ! j)) = Some afs)"
proof -
  from assms(5) have "\<exists>afs. ast_fields eosio_types (new_structs abi) s = Some (Inr afs)"
    if "s \<in> set (new_structs abi)" for s
    using that by (simp add: ast_fields_resolvable)
  then obtain schema where
    loop: "handleStructs_loop eosio_types (new_structs abi) (new_structs abi) empty_object =
        Some (Inr schema)"
    using loop_returns by blast
  then have result: "eosio_abi_to_graphql_ast eosio_types abi =
      Some (abi\<lparr>abi_structs := new_structs abi\<rparr>, Inr schema)"
    by (simp add: eosio_Some_iff handleStructs_def)
  from assms(2,4) have
    "last_named (struct_name (new_structs abi ! j)) (new_structs abi) = Some (new_structs abi ! j)"
    by (rule last_named_index)
  from loop_lookup_Some [OF loop this] result show ?thesis
    by (auto simp add: new_structs_names)
qed

theorem C10_last_entry_wins_witness:
  "\<exists>schema.
     eosio_abi_to_graphql_ast sample_types abi_twice = Some (abi_twice, Inr schema) \<and>
     lookup schema ''S'' =
       Some [\<lparr>ast_name = ''b'', ast_type = ''asset'',
              ast_info = \<lparr>object = False, optional = False, list = False,
                           binary_ex = False, variant = False\<rparr>\<rparr>]"
proof -
  let ?S1 = "\<lparr>struct_name = ''S'', struct_base = Some [],
              struct_fields = Some [\<lparr>field_name = ''a'', field_type = ''name''\<rparr>]\<rparr>"
  let ?S2 = "\<lparr>struct_name = ''S'', struct_base = Some [],
              struct_fields = Some [\<lparr>field_name = ''b'', field_type = ''asset''\<rparr>]\<rparr>"
  have w: "new_structs abi_twice = [?S1, ?S2]"
    by (simp add: abi_twice_def new_structs_def)
  have same: "abi_twice\<lparr>abi_structs := new_structs abi_twice\<rparr> = abi_twice"
    by (simp add: abi_twice_def new_structs_def)
  have 1: "(0::nat) < 1" by simp
  have 2: "1 < length (new_structs abi_twice)" by (simp add: w)
  have 3: "struct_name (new_structs abi_twice ! 0) = struct_name (new_structs abi_twice ! 1)"
    by (simp add: w)
  have 4: "struct_name (new_structs abi_twice ! k) \<noteq> struct_name (new_structs abi_twice ! 1)"
    if "1 < k" and "k < length (new_structs abi_twice)" for k
    using that by (simp add: w)
  have 5: "resolvable (new_structs abi_twice) s" if "s \<in> set (new_structs abi_twice)" for s
    using that by (auto simp add: w resolvable_def truthy_def)
  from C10_last_entry_wins [OF 1 2 3 4 5, of sample_types] obtain schema afs where
    r: "eosio_abi_to_graphql_ast sample_types abi_twice =
          Some (abi_twice\<lparr>abi_structs := new_structs abi_twice\<rparr>, Inr schema)"
    and a: "ast_fields sample_types (new_structs abi_twice) (new_structs abi_twice ! 1) =
          Some (Inr afs)"
    and s: "lookup schema (struct_name (new_structs abi_twice ! 1)) = Some afs"
    by blast
  from r have "eosio_abi_to_graphql_ast sample_types abi_twice = Some (abi_twice, Inr schema)"
    by (simp only: same)
  moreover from a s have "lookup schema ''S'' =
      Some [\<lparr>ast_name = ''b'', ast_type = ''asset'',
             ast_info = \<lparr>object = False, optional = False, list = False,
                          binary_ex = False, variant = False\<rparr>\<rparr>]"
    by (auto simp add: w ast_fields_def fields_with_base_fields_def truthy_def
        ast_field_of_def Let_def match_chars_def strip_markers_def sample_types_def)
  ultimately show ?thesis by blast
qed

text \<open>
  Claim C10 as stated fails: a struct \<open>S\<close> and an alias that registers the primitive
  \<^verbatim>\<open>name\<close> under the same name \<open>S\<close> share a name, and resolution throws, because
  the copy made for the alias has no fields.
\<close>

theorem C10_shared_name_error_counterexample:
  "eosio_abi_to_graphql_ast sample_types abi_name_clash =
     Some (abi_name_clash
             \<lparr>abi_structs :=
                [\<lparr>struct_name = ''S'', struct_base = Some [],
                  struct_fields = Some [\<lparr>field_name = ''a'', field_type = ''name''\<rparr>]\<rparr>,
                 \<lparr>struct_name = ''S'', struct_base = None, struct_fields = None\<rparr>]\<rparr>,
           Inl TypeError)"
  by (simp add: abi_name_clash_def resolver_defs)

section \<open>Alias expansion\<close>

lemma find_is_Some:
  "x \<in> set xs \<Longrightarrow> P x \<Longrightarrow> \<exists>y. find P xs = Some y"
  by (cases "find P xs") (auto simp add: find_None_iff)

lemma new_structs_take_names:
  "map struct_name (take k (new_structs abi)) = take k (declared_names abi)"
proof -
  have "map struct_name (take k (new_structs abi)) = take k (map struct_name (new_structs abi))"
    by (simp add: take_map)
  then show ?thesis by (simp only: new_structs_names)
qed

lemma declared_before_alias:
  assumes "n = length (abi_structs abi) +
             length (case abi_variants abi of None \<Rightarrow> [] | Some variants \<Rightarrow> variants)"
  shows "struct_name ` set (abi_structs abi) \<union>
         variant_name ` set (case abi_variants abi of None \<Rightarrow> [] | Some variants \<Rightarrow> variants)
         \<subseteq> set (take (n + i) (declared_names abi))"
proof -
  have "take n (declared_names abi) =
      map struct_name (abi_structs abi) @
      map variant_name (case abi_variants abi of None \<Rightarrow> [] | Some variants \<Rightarrow> variants)"
    by (simp add: declared_names_def assms)
  moreover have "set (take n (declared_names abi)) \<subseteq> set (take (n + i) (declared_names abi))"
    by (rule set_take_subset_set_take) simp
  ultimately show ?thesis by auto
qed

lemma alias_struct_found:
  "find (\<lambda>x. struct_name x = real_type t) structs = Some x \<Longrightarrow>
   alias_struct structs t = x\<lparr>struct_name := new_type_name t\<rparr>"
  by (simp add: alias_struct_def)

lemma alias_struct_not_found:
  "find (\<lambda>x. struct_name x = real_type t) structs = None \<Longrightarrow>
   alias_struct structs t =
     \<lparr>struct_name = new_type_name t, struct_base = None, struct_fields = None\<rparr>"
  by (simp add: alias_struct_def)

text \<open>
  Claim C9, as the code has it. Resolution returns a schema, the alias's real type names a
  declared struct or a variant, and neither the real name nor the new name is borne by a
  second entry of the working list. Then the schema maps the new name to the very field
  list it maps the real name to. Variants are in the list when the aliases are expanded,
  so a variant's name is a real type like any other.
\<close>

theorem C9_alias_transparency:
  assumes "eosio_abi_to_graphql_ast eosio_types abi = Some (abi', Inr schema)"
    and "abi_types abi = Some types" and "t \<in> set types"
    and "real_type t \<in>
           struct_name ` set (abi_structs abi) \<union>
           variant_name ` set (case abi_variants abi of None \<Rightarrow> [] | Some variants \<Rightarrow> variants)"
    and "count_list (declared_names abi) (real_type t) = 1"
    and "count_list (declared_names abi) (new_type_name t) = 1"
  shows "lookup schema (new_type_name t) = lookup schema (real_type t) \<and>
         lookup schema (new_type_name t) \<noteq> None"
proof -
  define n where "n = length (abi_structs abi) +
      length (case abi_variants abi of None \<Rightarrow> [] | Some variants \<Rightarrow> variants)"
  from assms(3) obtain i where i: "i < length types" and t: "types ! i = t"
    by (auto simp add: in_set_conv_nth)
  let ?before = "take (n + i) (new_structs abi)"
  from assms(2) i n_def have copy: "new_structs abi ! (n + i) = alias_struct ?before t"
    unfolding t [symmetric] by (rule new_structs_nth_alias)
  from assms(4) declared_before_alias [OF n_def, of i]
  have "real_type t \<in> set (take (n + i) (declared_names abi))"
    by (rule subsetD [rotated])
  then have "real_type t \<in> set (map struct_name ?before)"
    by (simp only: new_structs_take_names)
  then obtain y where "y \<in> set ?before" and "struct_name y = real_type t"
    by auto
  then have "\<exists>x. find (\<lambda>x. struct_name x = real_type t) ?before = Some x"
    by (rule find_is_Some)
  then obtain x where x: "find (\<lambda>x. struct_name x = real_type t) ?before = Some x"
    by blast
  then have "x \<in> set ?before" and x_name: "struct_name x = real_type t"
    by (auto dest: find_Some_set)
  then have x_in: "x \<in> set (new_structs abi)"
    by (auto dest: in_set_takeD)
  from i assms(2) n_def have "n + i < length (new_structs abi)"
    by (simp add: new_structs_length)
  then have "new_structs abi ! (n + i) \<in> set (new_structs abi)"
    by (rule nth_mem)
  with copy x have c_in: "x\<lparr>struct_name := new_type_name t\<rparr> \<in> set (new_structs abi)"
    by (simp add: alias_struct_found)
  from assms(5) x_in x_name have last_x: "last_named (real_type t) (new_structs abi) = Some x"
    by (simp add: last_named_unique new_structs_names)
  from assms(6) c_in have last_c:
    "last_named (new_type_name t) (new_structs abi) = Some (x\<lparr>struct_name := new_type_name t\<rparr>)"
    by (simp add: last_named_unique new_structs_names)
  from assms(1) have loop:
    "handleStructs_loop eosio_types (new_structs abi) (new_structs abi) empty_object =
       Some (Inr schema)"
    by (simp add: eosio_Some_iff handleStructs_def)
  have same: "ast_fields eosio_types (new_structs abi) (x\<lparr>struct_name := new_type_name t\<rparr>) =
      ast_fields eosio_types (new_structs abi) x"
    by (rule ast_fields_cong_name) simp_all
  from loop_lookup_Some [OF loop last_x] loop_lookup_Some [OF loop last_c] same
  show ?thesis by auto
qed

theorem C9_alias_transparency_witness:
  "\<exists>abi' schema.
     eosio_abi_to_graphql_ast sample_types abi_alias_variant = Some (abi', Inr schema) \<and>
     lookup schema ''X'' = lookup schema ''V'' \<and> lookup schema ''X'' \<noteq> None"
proof -
  let ?t = "\<lparr>new_type_name = ''X'', real_type = ''V''\<rparr>"
  obtain abi' schema where
    r: "eosio_abi_to_graphql_ast sample_types abi_alias_variant = Some (abi', Inr schema)"
    by (simp add: abi_alias_variant_def resolver_defs)
  have 2: "abi_types abi_alias_variant = Some [?t]"
    by (simp add: abi_alias_variant_def)
  have 3: "?t \<in> set [?t]" by simp
  have 4: "real_type ?t \<in>
      struct_name ` set (abi_structs abi_alias_variant) \<union>
      variant_name ` set (case abi_variants abi_alias_variant of None \<Rightarrow> [] | Some variants \<Rightarrow> variants)"
    by (simp add: abi_alias_variant_def)
  have 5: "count_list (declared_names abi_alias_variant) (real_type ?t) = 1"
    by (simp add: abi_alias_variant_def declared_names_def)
  have 6: "count_list (declared_names abi_alias_variant) (new_type_name ?t) = 1"
    by (simp add: abi_alias_variant_def declared_names_def)
  from C9_alias_transparency [OF r 2 3 4 5 6]
  have c: "lookup schema (new_type_name ?t) = lookup schema (real_type ?t) \<and>
      lookup schema (new_type_name ?t) \<noteq> None" .
  from c [THEN conjunct1] have "lookup schema ''X'' = lookup schema ''V''" by simp
  moreover from c [THEN conjunct2] have "lookup schema ''X'' \<noteq> None" by simp
  ultimately show ?thesis using r by blast
qed

text \<open>
  Claim C9 as stated fails: of two aliases that register the same new name \<open>X\<close>, the
  second one wins, and the schema does not map \<open>X\<close> to the fields of the first one's real
  type \<open>S1\<close>.
\<close>

theorem C9_alias_overwritten_counterexample:
  "\<exists>abi' schema.
     eosio_abi_to_graphql_ast sample_types abi_alias_clash = Some (abi', Inr schema) \<and>
     lookup schema ''S1'' =
       Some [\<lparr>ast_name = ''a'', ast_type = ''name'',
              ast_info = \<lparr>object = False, optional = False, list = False,
                           binary_ex = False, variant = False\<rparr>\<rparr>] \<and>
     lookup schema ''X'' =
       Some [\<lparr>ast_name = ''b'', ast_type = ''asset'',
              ast_info = \<lparr>object = False, optional = False, list = False,
                           binary_ex = False, variant = False\<rparr>\<rparr>]"
  by (simp add: abi_alias_clash_def resolver_defs lookup_def)

section \<open>What a returned schema holds\<close>

lemma ast_field_of_name: "ast_name (ast_field_of eosio_types field) = field_name field"
  by (simp add: ast_field_of_def Let_def)

lemma ast_field_of_object:
  "object (ast_info (ast_field_of eosio_types field)) =
     (ast_type (ast_field_of eosio_types field) \<notin> dom eosio_types \<union> object_prototype_names)"
  by (auto simp add: ast_field_of_def Let_def)

lemma set_property_keys:
  "dom (ast_properties (set_property obj key v)) =
     dom (ast_properties obj) \<union> ({key} - {''__proto__''})"
  by (auto simp add: set_property_def)

lemma loop_keys:
  "handleStructs_loop eosio_types structs xs acc = Some (Inr m) \<Longrightarrow>
   dom (ast_properties m) =
     dom (ast_properties acc) \<union> (struct_name ` set xs - {''__proto__''})"
proof (induction xs arbitrary: acc)
  case Nil
  then show ?case by simp
next
  case (Cons x xs)
  from Cons.prems obtain afs where
    rest: "handleStructs_loop eosio_types structs xs (set_property acc (struct_name x) afs) =
      Some (Inr m)"
    unfolding loop_Inr_Cons by blast
  have "dom (ast_properties m) =
      dom (ast_properties (set_property acc (struct_name x) afs)) \<union>
      (struct_name ` set xs - {''__proto__''})"
    using rest by (rule Cons.IH)
  then show ?case
    by (auto simp add: set_property_keys)
qed

text \<open>
  Flattening, said without the recursion of the code: a struct resolves exactly when its
  base chain can be listed, every struct of the chain and the struct itself having fields,
  and then its fields are the flattened declaration along that list.
\<close>

lemma flattened_declaration_Nil:
  "struct_fields struct = Some own \<Longrightarrow> flattened_declaration struct [] = own"
  by (simp add: flattened_declaration_def)

lemma flattened_declaration_Cons:
  "struct_fields struct = Some own \<Longrightarrow>
   flattened_declaration struct (b # path) = flattened_declaration b path @ own"
  by (simp add: flattened_declaration_def)

lemma base_path_flattens:
  "base_path structs struct path \<Longrightarrow>
   (\<And>s. s \<in> set (struct # path) \<Longrightarrow> struct_fields s \<noteq> None) \<Longrightarrow>
   fields_with_base_fields structs struct = Some (Inr (flattened_declaration struct path))"
proof (induction path arbitrary: struct)
  case Nil
  from Nil.prems(2) [of struct] obtain own where own: "struct_fields struct = Some own"
    by auto
  with Nil.prems(1) show ?case
    by (simp add: fields_with_base_fields_def flattened_declaration_Nil)
next
  case (Cons b path)
  from Cons.prems(2) [of struct] obtain own where own: "struct_fields struct = Some own"
    by auto
  from Cons.prems(1) have t: "truthy (struct_base struct)"
    and found: "find (\<lambda>s. struct_name s = the (struct_base struct)) structs = Some b"
    and path: "base_path structs b path"
    by simp_all
  have "fields_with_base_fields structs b = Some (Inr (flattened_declaration b path))"
    using path by (rule Cons.IH) (simp add: Cons.prems(2))
  with found have "handleBaseFields (the (struct_base struct)) structs =
      Some (Inr (flattened_declaration b path))"
    by (simp add: handleBaseFields_eq_fields)
  with t own have "fields_with_base_fields structs struct =
      Some (Inr (flattened_declaration b path @ own))"
    by (simp add: fields_with_base_fields_def spread_fields_def)
  with own show ?case
    by (simp add: flattened_declaration_Cons)
qed

lemma declared_chain_path:
  "declared_chain structs base \<Longrightarrow>
   \<exists>b path. find (\<lambda>s. struct_name s = base) structs = Some b \<and>
            base_path structs b path \<and> (\<forall>s \<in> set (b # path). struct_fields s \<noteq> None)"
proof (induction rule: declared_chain.induct)
  case (root base structs base_struct)
  then have "find (\<lambda>s. struct_name s = base) structs = Some base_struct \<and>
      base_path structs base_struct [] \<and>
      (\<forall>s \<in> set (base_struct # []). struct_fields s \<noteq> None)"
    by simp
  then show ?case by blast
next
  case (step base structs base_struct)
  then obtain b path where
    "find (\<lambda>s. struct_name s = the (struct_base base_struct)) structs = Some b"
    and "base_path structs b path"
    and "\<forall>s \<in> set (b # path). struct_fields s \<noteq> None"
    by blast
  with step.hyps have "find (\<lambda>s. struct_name s = base) structs = Some base_struct \<and>
      base_path structs base_struct (b # path) \<and>
      (\<forall>s \<in> set (base_struct # b # path). struct_fields s \<noteq> None)"
    by simp
  then show ?case by blast
qed

lemma resolved_along_base_path:
  assumes "fields_with_base_fields structs struct = Some (Inr fs)"
  shows "\<exists>path. base_path structs struct path \<and>
           (\<forall>s \<in> set (struct # path). struct_fields s \<noteq> None) \<and>
           fs = flattened_declaration struct path"
proof -
  from assms have r: "resolvable structs struct"
    by (rule returns_resolvable)
  have "\<exists>path. base_path structs struct path \<and>
      (\<forall>s \<in> set (struct # path). struct_fields s \<noteq> None)"
  proof (cases "truthy (struct_base struct)")
    case False
    with r have "base_path structs struct [] \<and>
        (\<forall>s \<in> set (struct # []). struct_fields s \<noteq> None)"
      by (simp add: resolvable_def)
    then show ?thesis by blast
  next
    case True
    with r have "declared_chain structs (the (struct_base struct))"
      by (simp add: resolvable_def)
    then obtain b path where
      "find (\<lambda>s. struct_name s = the (struct_base struct)) structs = Some b"
      and "base_path structs b path"
      and "\<forall>s \<in> set (b # path). struct_fields s \<noteq> None"
      using declared_chain_path by blast
    with True r have "base_path structs struct (b # path) \<and>
        (\<forall>s \<in> set (struct # b # path). struct_fields s \<noteq> None)"
      by (simp add: resolvable_def)
    then show ?thesis by blast
  qed
  then obtain path where path: "base_path structs struct path"
    and fields: "\<forall>s \<in> set (struct # path). struct_fields s \<noteq> None"
    by blast
  from path have "fields_with_base_fields structs struct =
      Some (Inr (flattened_declaration struct path))"
    by (rule base_path_flattens) (simp add: fields)
  with assms have "fs = flattened_declaration struct path" by simp
  with path fields show ?thesis by blast
qed

text \<open>
  Claim C5, as the code has it. Nothing is validated, so a returned schema mirrors the
  document. Its keys are the names of the working list, but for \<^verbatim>\<open>__proto__\<close>: an
  entry of that name becomes the prototype of the schema object. What the schema holds
  under a name is, field by field and in order, the resolved image of the flattened
  declaration of the last entry of that name: the declared fields of the structs of its
  base chain, outermost ancestor first, then its own. Each resolved field has the name of
  its declaration, so names that are declared twice stay twice. And a resolved field is no
  object exactly when its base type is a key of the registry or a name inherited from
  \<^verbatim>\<open>Object.prototype\<close>; the base type of an object need not be a key of the schema.
\<close>

theorem C5_schema_mirrors_declarations:
  assumes "eosio_abi_to_graphql_ast eosio_types abi = Some (abi', Inr schema)"
  shows "dom (ast_properties schema) = set (declared_names abi) - {''__proto__''} \<and>
         (\<forall>n. (lookup schema n \<noteq> None) = (n \<in> set (declared_names abi))) \<and>
         (\<forall>n afs. lookup schema n = Some afs \<longrightarrow>
            (\<exists>struct path.
               last_named n (new_structs abi) = Some struct \<and>
               base_path (new_structs abi) struct path \<and>
               afs = map (ast_field_of eosio_types) (flattened_declaration struct path) \<and>
               map ast_name afs = map field_name (flattened_declaration struct path) \<and>
               (\<forall>f \<in> set afs.
                  (\<not> object (ast_info f)) =
                  (ast_type f \<in> dom eosio_types \<union> object_prototype_names))))"
proof -
  from assms have loop:
    "handleStructs_loop eosio_types (new_structs abi) (new_structs abi) empty_object =
       Some (Inr schema)"
    by (simp add: eosio_Some_iff handleStructs_def)
  then have "dom (ast_properties schema) =
      dom (ast_properties empty_object) \<union> (struct_name ` set (new_structs abi) - {''__proto__''})"
    by (rule loop_keys)
  also have "\<dots> = set (map struct_name (new_structs abi)) - {''__proto__''}"
    by (simp add: empty_object_def)
  finally have keys: "dom (ast_properties schema) = set (declared_names abi) - {''__proto__''}"
    by (simp only: new_structs_names)
  have found: "(lookup schema n \<noteq> None) = (n \<in> set (declared_names abi))" for n
  proof (cases "last_named n (new_structs abi)")
    case None
    then have "n \<notin> set (map struct_name (new_structs abi))"
      by (simp add: last_named_None_iff)
    with loop_lookup_None [OF loop None] show ?thesis
      by (simp add: lookup_empty_object new_structs_names)
  next
    case (Some s)
    then have "n \<in> set (map struct_name (new_structs abi))"
      by (auto dest: last_named_Some)
    with loop_lookup_Some [OF loop Some] show ?thesis
      by (auto simp add: new_structs_names)
  qed
  have "\<exists>struct path.
          last_named n (new_structs abi) = Some struct \<and>
          base_path (new_structs abi) struct path \<and>
          afs = map (ast_field_of eosio_types) (flattened_declaration struct path) \<and>
          map ast_name afs = map field_name (flattened_declaration struct path) \<and>
          (\<forall>f \<in> set afs.
             (\<not> object (ast_info f)) =
             (ast_type f \<in> dom eosio_types \<union> object_prototype_names))"
    if n: "lookup schema n = Some afs" for n afs
  proof (cases "last_named n (new_structs abi)")
    case None
    from loop_lookup_None [OF loop None] n show ?thesis
      by (simp add: lookup_empty_object)
  next
    case (Some struct)
    from loop_lookup_Some [OF loop Some] n
    have "ast_fields eosio_types (new_structs abi) struct = Some (Inr afs)" by auto
    then obtain fs where
      fs: "fields_with_base_fields (new_structs abi) struct = Some (Inr fs)"
      and afs: "afs = map (ast_field_of eosio_types) fs"
      by (auto simp add: ast_fields_Inr_iff)
    from fs obtain path where path: "base_path (new_structs abi) struct path"
      and flat: "fs = flattened_declaration struct path"
      using resolved_along_base_path by blast
    from afs have names: "map ast_name afs = map field_name fs"
      by (simp add: ast_field_of_name comp_def)
    from afs have flags: "\<forall>f \<in> set afs.
        (\<not> object (ast_info f)) = (ast_type f \<in> dom eosio_types \<union> object_prototype_names)"
      by (auto simp add: ast_field_of_object)
    from Some path afs names flags show ?thesis
      unfolding flat by blast
  qed
  with keys found show ?thesis by blast
qed

text \<open>
  An instance: of the two structs \<open>S\<close> and \<^verbatim>\<open>__proto__\<close>, the first is the one key
  of the schema, and the second is found under its name all the same.
\<close>

theorem C5_schema_mirrors_declarations_witness:
  "\<exists>abi' schema.
     eosio_abi_to_graphql_ast sample_types abi_proto = Some (abi', Inr schema) \<and>
     dom (ast_properties schema) = {''S''} \<and>
     lookup schema ''__proto__'' \<noteq> None"
proof -
  obtain abi' schema where
    r: "eosio_abi_to_graphql_ast sample_types abi_proto = Some (abi', Inr schema)"
    by (simp add: abi_proto_def resolver_defs)
  from C5_schema_mirrors_declarations [OF r]
  have keys: "dom (ast_properties schema) = set (declared_names abi_proto) - {''__proto__''}"
    and found: "(lookup schema ''__proto__'' \<noteq> None) = (''__proto__'' \<in> set (declared_names abi_proto))"
    by blast+
  from keys have "dom (ast_properties schema) = {''S''}"
    by (auto simp add: declared_names_def abi_proto_def)
  moreover from found have "lookup schema ''__proto__'' \<noteq> None"
    by (simp add: declared_names_def abi_proto_def)
  ultimately show ?thesis using r by blast
qed

text \<open>
  Claim C5 as stated fails: the struct \<open>s\<close> that declares two fields \<open>a\<close>, the first of
  the type \<open>ghost\<close> that nothing declares, resolves to a schema with both fields;
  \<open>ghost\<close> is neither a name of the registry nor a key of the schema.
\<close>

theorem C5_no_validation_counterexample:
  "eosio_abi_to_graphql_ast sample_types abi_loose =
     Some (abi_loose,
       Inr \<lparr>ast_properties =
              [''s'' \<mapsto>
                 [\<lparr>ast_name = ''a'', ast_type = ''ghost'',
                   ast_info = \<lparr>object = True, optional = False, list = False,
                                binary_ex = False, variant = False\<rparr>\<rparr>,
                  \<lparr>ast_name = ''a'', ast_type = ''name'',
                   ast_info = \<lparr>object = False, optional = False, list = False,
                                binary_ex = False, variant = False\<rparr>\<rparr>]],
            ast_prototype = None\<rparr>) \<and>
   sample_types ''ghost'' = None"
  by (simp add: abi_loose_def resolver_defs)

section \<open>References that nothing declares\<close>

lemma call_chain_ends_returns:
  "base_call structs base (Suc k) = None \<Longrightarrow> \<exists>r. handleBaseFields base structs = Some r"
proof (induction k arbitrary: base)
  case 0
  show ?case
  proof (cases "find (\<lambda>s. struct_name s = base) structs")
    case None
    then show ?thesis by (simp add: handleBaseFields_not_found)
  next
    case (Some base_struct)
    with 0 have "\<not> truthy (struct_base base_struct)"
      by (auto split: if_splits)
    with Some show ?thesis by (simp add: handleBaseFields_root)
  qed
next
  case (Suc k)
  show ?case
  proof (cases "find (\<lambda>s. struct_name s = base) structs")
    case None
    then show ?thesis by (simp add: handleBaseFields_not_found)
  next
    case (Some base_struct)
    show ?thesis
    proof (cases "truthy (struct_base base_struct)")
      case False
      with Some show ?thesis by (simp add: handleBaseFields_root)
    next
      case True
      with Suc.prems Some have "base_call structs (the (struct_base base_struct)) (Suc k) = None"
        by simp
      then obtain r where "handleBaseFields (the (struct_base base_struct)) structs = Some r"
        using Suc.IH by blast
      with Some True show ?thesis
        by (cases r) (simp_all add: handleBaseFields_step)
    qed
  qed
qed

lemma ast_fields_returns:
  assumes "truthy (struct_base struct) \<Longrightarrow>
             \<exists>k. base_call structs (the (struct_base struct)) (Suc k) = None"
  shows "\<exists>r. ast_fields eosio_types structs struct = Some r"
proof (cases "truthy (struct_base struct)")
  case False
  then show ?thesis
    by (simp add: ast_fields_def fields_with_base_fields_def split: option.splits)
next
  case True
  with assms obtain r where "handleBaseFields (the (struct_base struct)) structs = Some r"
    using call_chain_ends_returns by blast
  with True show ?thesis
    by (cases r) (simp_all add: ast_fields_def fields_with_base_fields_def
        split: option.splits sum.splits)
qed

lemma loop_total:
  "(\<And>s. s \<in> set xs \<Longrightarrow> \<exists>r. ast_fields eosio_types structs s = Some r) \<Longrightarrow>
   \<exists>r. handleStructs_loop eosio_types structs xs acc = Some r"
proof (induction xs arbitrary: acc)
  case Nil
  show ?case by simp
next
  case (Cons x xs)
  from Cons.prems [of x] obtain r where r: "ast_fields eosio_types structs x = Some r"
    by auto
  show ?case
  proof (cases r)
    case (Inl e)
    with r show ?thesis by simp
  next
    case (Inr afs)
    have "\<exists>r. handleStructs_loop eosio_types structs xs (set_property acc (struct_name x) afs) = Some r"
      by (rule Cons.IH) (simp add: Cons.prems)
    with r Inr show ?thesis by simp
  qed
qed

lemma ghost_base_throws:
  assumes "truthy (struct_base struct)"
    and "find (\<lambda>s. struct_name s = the (struct_base struct)) structs = None"
  shows "ast_fields eosio_types structs struct = Some (Inl TypeError)"
  using assms
  by (simp add: ast_fields_def fields_with_base_fields_def handleBaseFields_not_found)

lemma no_fields_throws:
  assumes "struct_base struct = None" and "struct_fields struct = None"
  shows "ast_fields eosio_types structs struct = Some (Inl TypeError)"
  using assms
  by (simp add: ast_fields_def fields_with_base_fields_def truthy_def)

lemma ghost_alias_copy:
  assumes "abi_types abi = Some types" and "i < length types"
    and "n = length (abi_structs abi) +
             length (case abi_variants abi of None \<Rightarrow> [] | Some variants \<Rightarrow> variants)"
    and "real_type (types ! i) \<notin> set (take (n + i) (declared_names abi))"
  shows "\<lparr>struct_name = new_type_name (types ! i), struct_base = None, struct_fields = None\<rparr>
           \<in> set (new_structs abi)"
proof -
  let ?before = "take (n + i) (new_structs abi)"
  from assms(4) have "real_type (types ! i) \<notin> set (map struct_name ?before)"
    by (simp add: new_structs_take_names)
  then have "find (\<lambda>x. struct_name x = real_type (types ! i)) ?before = None"
    by (force simp add: find_None_iff)
  then have "alias_struct ?before (types ! i) =
      \<lparr>struct_name = new_type_name (types ! i), struct_base = None, struct_fields = None\<rparr>"
    by (rule alias_struct_not_found)
  moreover from assms(1-3) have
    "new_structs abi ! (n + i) = alias_struct ?before (types ! i)"
    by (rule new_structs_nth_alias)
  moreover from assms(1-3) have "n + i < length (new_structs abi)"
    by (simp add: new_structs_length)
  then have "new_structs abi ! (n + i) \<in> set (new_structs abi)"
    by (rule nth_mem)
  ultimately show ?thesis by simp
qed

text \<open>
  Claim C6, as the code has it. The base of an entry names no entry of the working list
  (declared struct, variant struct or alias copy), or the real type of an alias names
  none of the entries that precede the alias's copy (declared structs, variants, earlier
  aliases). Then resolution returns no schema. It throws \<^verbatim>\<open>TypeError\<close> when no
  base chain of the list revisits a name; a chain that does is the one case in which it
  may not return.
\<close>

theorem C6_unresolved_reference:
  assumes "(\<exists>struct \<in> set (new_structs abi).
              truthy (struct_base struct) \<and>
              find (\<lambda>s. struct_name s = the (struct_base struct)) (new_structs abi) = None) \<or>
           (\<exists>types i.
              abi_types abi = Some types \<and> i < length types \<and>
              real_type (types ! i) \<notin>
                set (take (length (abi_structs abi) +
                           length (case abi_variants abi of None \<Rightarrow> [] | Some variants \<Rightarrow> variants) +
                           i)
                      (declared_names abi)))"
  shows "(\<forall>abi' schema. eosio_abi_to_graphql_ast eosio_types abi \<noteq> Some (abi', Inr schema)) \<and>
         ((\<forall>struct \<in> set (new_structs abi).
             truthy (struct_base struct) \<longrightarrow>
             \<not> revisits (new_structs abi) (the (struct_base struct))) \<longrightarrow>
          eosio_abi_to_graphql_ast eosio_types abi =
            Some (abi\<lparr>abi_structs := new_structs abi\<rparr>, Inl TypeError))"
proof -
  from assms obtain bad where bad: "bad \<in> set (new_structs abi)"
    and throws: "ast_fields eosio_types (new_structs abi) bad = Some (Inl TypeError)"
  proof
    assume "\<exists>struct \<in> set (new_structs abi).
        truthy (struct_base struct) \<and>
        find (\<lambda>s. struct_name s = the (struct_base struct)) (new_structs abi) = None"
    then obtain struct where "struct \<in> set (new_structs abi)"
      and "truthy (struct_base struct)"
      and "find (\<lambda>s. struct_name s = the (struct_base struct)) (new_structs abi) = None"
      by blast
    then show ?thesis
      using that ghost_base_throws by blast
  next
    assume "\<exists>types i.
        abi_types abi = Some types \<and> i < length types \<and>
        real_type (types ! i) \<notin>
          set (take (length (abi_structs abi) +
                     length (case abi_variants abi of None \<Rightarrow> [] | Some variants \<Rightarrow> variants) +
                     i)
                (declared_names abi))"
    then obtain types i where "abi_types abi = Some types" and "i < length types"
      and "real_type (types ! i) \<notin>
          set (take (length (abi_structs abi) +
                     length (case abi_variants abi of None \<Rightarrow> [] | Some variants \<Rightarrow> variants) +
                     i)
                (declared_names abi))"
      by blast
    then have "\<lparr>struct_name = new_type_name (types ! i), struct_base = None, struct_fields = None\<rparr>
        \<in> set (new_structs abi)"
      by (rule ghost_alias_copy [OF _ _ refl])
    moreover have "ast_fields eosio_types (new_structs abi)
        \<lparr>struct_name = new_type_name (types ! i), struct_base = None, struct_fields = None\<rparr> =
        Some (Inl TypeError)"
      by (rule no_fields_throws) simp_all
    ultimately show ?thesis using that by blast
  qed
  from bad have no_schema: "eosio_abi_to_graphql_ast eosio_types abi \<noteq> Some (abi', Inr schema)"
    for abi' schema
    by (rule no_schema_unless_all_resolve) (simp add: throws)
  have "eosio_abi_to_graphql_ast eosio_types abi =
      Some (abi\<lparr>abi_structs := new_structs abi\<rparr>, Inl TypeError)"
    if acyclic: "\<forall>struct \<in> set (new_structs abi).
        truthy (struct_base struct) \<longrightarrow>
        \<not> revisits (new_structs abi) (the (struct_base struct))"
  proof -
    from acyclic have "\<exists>r. ast_fields eosio_types (new_structs abi) s = Some r"
      if "s \<in> set (new_structs abi)" for s
      using that by (intro ast_fields_returns no_revisit_ends) blast
    then obtain r where
      r: "handleStructs_loop eosio_types (new_structs abi) (new_structs abi) empty_object = Some r"
      using loop_total by blast
    then have result: "eosio_abi_to_graphql_ast eosio_types abi =
        Some (abi\<lparr>abi_structs := new_structs abi\<rparr>, r)"
      by (simp add: eosio_Some_iff handleStructs_def)
    show ?thesis
    proof (cases r)
      case (Inl e)
      with result show ?thesis by (cases e) simp
    next
      case (Inr schema)
      with result no_schema show ?thesis by blast
    qed
  qed
  with no_schema show ?thesis by blast
qed

theorem C6_unresolved_reference_witness:
  "eosio_abi_to_graphql_ast sample_types abi_ghost_base = Some (abi_ghost_base, Inl TypeError)"
proof -
  let ?C = "\<lparr>struct_name = ''C'', struct_base = Some ''ghost'',
             struct_fields = Some [\<lparr>field_name = ''c'', field_type = ''name''\<rparr>]\<rparr>"
  have w: "new_structs abi_ghost_base = [?C]"
    by (simp add: abi_ghost_base_def new_structs_def)
  have same: "abi_ghost_base\<lparr>abi_structs := new_structs abi_ghost_base\<rparr> = abi_ghost_base"
    by (simp add: abi_ghost_base_def new_structs_def)
  have ghost: "\<exists>struct \<in> set (new_structs abi_ghost_base).
      truthy (struct_base struct) \<and>
      find (\<lambda>s. struct_name s = the (struct_base struct)) (new_structs abi_ghost_base) = None"
    by (simp add: w truthy_def)
  have "base_call (new_structs abi_ghost_base) ''ghost'' (Suc 0) = None"
    by (simp add: w)
  then have "\<not> revisits (new_structs abi_ghost_base) ''ghost''"
    by (rule ends_no_revisit)
  then have ends: "\<forall>struct \<in> set (new_structs abi_ghost_base).
      truthy (struct_base struct) \<longrightarrow>
      \<not> revisits (new_structs abi_ghost_base) (the (struct_base struct))"
    by (simp add: w)
  from C6_unresolved_reference [OF disjI1, OF ghost, of sample_types] ends
  have "eosio_abi_to_graphql_ast sample_types abi_ghost_base =
      Some (abi_ghost_base\<lparr>abi_structs := new_structs abi_ghost_base\<rparr>, Inl TypeError)"
    by blast
  then show ?thesis by (simp only: same)
qed

text \<open>
  Claim C6 as stated fails: the base \<open>V\<close> of the struct \<open>C\<close> names no declared struct,
  it names a variant, and resolution returns a schema in which \<open>C\<close> begins with the
  variant's slot.
\<close>

theorem C6_variant_base_counterexample:
  "(\<exists>abi'. eosio_abi_to_graphql_ast sample_types abi_variant_base =
     Some (abi',
       Inr \<lparr>ast_properties =
              [''C'' \<mapsto>
                 [\<lparr>ast_name = ''name'', ast_type = ''name'',
                   ast_info = \<lparr>object = False, optional = True, list = False,
                                binary_ex = True, variant = True\<rparr>\<rparr>,
                  \<lparr>ast_name = ''c'', ast_type = ''name'',
                   ast_info = \<lparr>object = False, optional = False, list = False,
                                binary_ex = False, variant = False\<rparr>\<rparr>],
               ''V'' \<mapsto>
                 [\<lparr>ast_name = ''name'', ast_type = ''name'',
                   ast_info = \<lparr>object = False, optional = True, list = False,
                                binary_ex = True, variant = True\<rparr>\<rparr>]],
            ast_prototype = None\<rparr>)) \<and>
   ''V'' \<notin> struct_name ` set (abi_structs abi_variant_base)"
  by (simp add: abi_variant_base_def resolver_defs)

end
